theory Spec2Isabelle
  imports Main "HOL-Library.AList"
begin

section \<open>JavaScript values\<close>

text \<open>
  The values that flow through \<open>paginate\<close> (src/index.js): cursor values, projection
  entries, the \<open>sortAscending\<close> flag and the fields of a document. Numbers are modelled
  as integers (no NaN, no fractions); an ObjectId or a Date is an object; \<open>JFun\<close> is a
  function, such as a method every object inherits.
\<close>

datatype jsval =
    JUndefined
  | JNull
  | JBool bool
  | JNum int
  | JStr string
  | JArr "jsval list"
  | JObj "(string \<times> jsval) list"
  | JFun

text \<open>What \<open>if (v)\<close>, \<open>!v\<close> and \<open>!!v\<close> test.\<close>

fun truthy :: "jsval \<Rightarrow> bool" where
  "truthy JUndefined = False"
| "truthy JNull = False"
| "truthy (JBool b) = b"
| "truthy (JNum n) = (n \<noteq> 0)"
| "truthy (JStr s) = (s \<noteq> [])"
| "truthy (JArr xs) = True"
| "truthy (JObj kvs) = True"
| "truthy JFun = True"

text \<open>\<open>!a\<close>, \<open>a && b\<close> and \<open>a || b\<close>: the last two return one of their operands.\<close>

definition js_not :: "jsval \<Rightarrow> jsval" where
  "js_not a = JBool (\<not> truthy a)"

definition js_and :: "jsval \<Rightarrow> jsval \<Rightarrow> jsval" where
  "js_and a b = (if truthy a then b else a)"

definition js_or :: "jsval \<Rightarrow> jsval \<Rightarrow> jsval" where
  "js_or a b = (if truthy a then a else b)"

text \<open>
  \<open>v[i]\<close> on a value that is neither \<open>null\<close> nor \<open>undefined\<close>: an array element, a
  one-character string, an object property, or \<open>undefined\<close>. The code reads the indices
  0 and 1 only; \<open>index_key\<close> is the property name of an index below ten.
\<close>

definition index_key :: "nat \<Rightarrow> string" where
  "index_key i = [char_of (48 + i)]"

fun js_index :: "jsval \<Rightarrow> nat \<Rightarrow> jsval" where
  "js_index (JArr xs) i = (if i < length xs then xs ! i else JUndefined)"
| "js_index (JStr s) i = (if i < length s then JStr [s ! i] else JUndefined)"
| "js_index (JObj kvs) i = (case map_of kvs (index_key i) of Some v \<Rightarrow> v | None \<Rightarrow> JUndefined)"
| "js_index v i = JUndefined"

section \<open>Documents and projections\<close>

text \<open>
  A lean document and a projection object are plain objects: association lists of
  their own properties, in insertion order.
\<close>

type_synonym doc = "(string \<times> jsval) list"

text \<open>
  \<open>obj[k]\<close> on a plain object: an own property, or else one inherited from
  \<open>Object.prototype\<close> (a method, or the prototype itself for \<open>__proto__\<close>), or else
  \<open>undefined\<close>.
\<close>

definition object_prototype_names :: "string list" where
  "object_prototype_names =
     [''constructor'', ''toString'', ''toLocaleString'', ''valueOf'', ''hasOwnProperty'',
      ''isPrototypeOf'', ''propertyIsEnumerable'', ''__defineGetter__'', ''__defineSetter__'',
      ''__lookupGetter__'', ''__lookupSetter__'', ''__proto__'']"

definition js_get :: "doc \<Rightarrow> string \<Rightarrow> jsval" where
  "js_get d k =
     (case map_of d k of
        Some v \<Rightarrow> v
      | None \<Rightarrow> if k = ''__proto__'' then JObj []
                else if k \<in> set object_prototype_names then JFun
                else JUndefined)"

text \<open>
  The names on which \<open>objectPath.get\<close> and \<open>_.omit\<close> (libraries outside the repository)
  are modelled: a name that is not empty, is not read as a path (no \<open>.\<close> and no \<open>[\<close>)
  and is not inherited by every object. For such a name \<open>objectPath.get(d, k)\<close> is the
  own property \<open>k\<close> of \<open>d\<close> or \<open>undefined\<close>, and \<open>_.omit(d, ks)\<close> drops the own
  properties named in \<open>ks\<close>. Every statement below that reads a document through
  \<open>paginatedField\<close> or strips it assumes \<open>top_level\<close> of that name.
\<close>

definition top_level :: "string \<Rightarrow> bool" where
  "top_level k =
     (k \<noteq> [] \<and> CHR ''.'' \<notin> set k \<and> CHR ''['' \<notin> set k \<and> k \<notin> set object_prototype_names)"

definition get_prop :: "doc \<Rightarrow> string \<Rightarrow> jsval" where
  "get_prop d k = (case map_of d k of Some v \<Rightarrow> v | None \<Rightarrow> JUndefined)"

definition omit :: "string list \<Rightarrow> doc \<Rightarrow> doc" where
  "omit ks d = filter (\<lambda>kv. fst kv \<notin> set ks) d"

section \<open>Parameters, query and response\<close>

text \<open>\<open>config.DEFAULT_LIMIT\<close> and \<open>config.MAX_LIMIT\<close> of \<open>./config\<close>, taken as parameters.\<close>

record config =
  DEFAULT_LIMIT :: int
  MAX_LIMIT :: int

text \<open>
  The \<open>params\<close> object. \<open>None\<close> is a property that is \<open>undefined\<close>; \<open>limit\<close> is an
  integer when it is present, \<open>paginatedField\<close> a string and \<open>fields\<close> (here \<open>fields_p\<close>)
  an object. \<open>next\<close> and \<open>previous\<close> hold the caller's token first and the decoded
  cursor after lines 30-31.
\<close>

record params =
  query :: jsval
  limit :: "int option"
  fields_p :: "doc option"
  paginatedField :: "string option"
  "next" :: jsval
  previous :: jsval
  sortAscending :: jsval

text \<open>
  The filter object handed to \<open>find\<close>: \<open>Caller q\<close> is the caller's own query object,
  \<open>Fields [(f, op, v), ...]\<close> is an object literal \<open>{f: {op: v}, ...}\<close>, \<open>Or_of\<close> is
  \<open>{$or: [...]}\<close> and \<open>And_of\<close> is \<open>{$and: [...]}\<close>.
\<close>

datatype filter =
    Caller jsval
  | Fields "(string \<times> string \<times> jsval) list"
  | Or_of "filter list"
  | And_of "filter list"

text \<open>The chain \<open>find(filter, fields).sort(sort).limit(n).lean(true)\<close> as one value.\<close>

record find_query =
  q_filter :: filter
  q_fields :: "doc option"
  q_sort :: "(string \<times> int) list"
  q_limit :: int

record response =
  results :: "doc list"
  resp_previous :: "string option"
  hasPrevious :: bool
  resp_next :: "string option"
  hasNext :: bool

section \<open>paginate, line by line\<close>

text \<open>Lines 30-31: a truthy cursor parameter is replaced by its decoding, which may throw.\<close>

definition decode_if_given :: "(jsval \<Rightarrow> 'e + jsval) \<Rightarrow> jsval \<Rightarrow> 'e + jsval" where
  "decode_if_given decode v = (if truthy v then decode v else Inr v)"

text \<open>Lines 33-37: \<open>_.defaults\<close> fills the properties that are \<open>undefined\<close>, in place.\<close>

definition defaults :: "config \<Rightarrow> params \<Rightarrow> params" where
  "defaults cfg p = p\<lparr>
     query := (if query p = JUndefined then JObj [] else query p),
     limit := (case limit p of None \<Rightarrow> Some (DEFAULT_LIMIT cfg) | Some l \<Rightarrow> Some l),
     paginatedField := (case paginatedField p of None \<Rightarrow> Some ''_id'' | Some f \<Rightarrow> Some f)\<rparr>"

text \<open>Lines 41-42.\<close>

definition clamp_limit :: "config \<Rightarrow> params \<Rightarrow> params" where
  "clamp_limit cfg p =
     (let p1 = (case limit p of Some l \<Rightarrow> if l < 1 then p\<lparr>limit := Some 1\<rparr> else p | None \<Rightarrow> p)
      in case limit p1 of
           Some l \<Rightarrow> if l > MAX_LIMIT cfg then p1\<lparr>limit := Some (MAX_LIMIT cfg)\<rparr> else p1
         | None \<Rightarrow> p1)"

text \<open>\<open>params.limit\<close> and \<open>params.paginatedField\<close> as read after the defaults.\<close>

definition limit_of :: "params \<Rightarrow> int" where
  "limit_of p = the (limit p)"

definition field_of :: "params \<Rightarrow> string" where
  "field_of p = the (paginatedField p)"

text \<open>Line 47.\<close>

definition shouldSecondarySortOnId :: "params \<Rightarrow> bool" where
  "shouldSecondarySortOnId p = (field_of p \<noteq> ''_id'')"

text \<open>
  Lines 49-72: the projection. The result is the params object with its \<open>fields\<close>
  object extended in place, \<open>fieldsToBeRemoveInResponse\<close> and
  \<open>removePaginatedFieldInResponse\<close>; the local \<open>fields\<close> is \<open>params.fields\<close> itself.
\<close>

definition include_fields :: "params \<Rightarrow> params \<times> string list \<times> bool" where
  "include_fields p =
     (case fields_p p of
        None \<Rightarrow> (p, [], False)
      | Some fs \<Rightarrow>
          let excl = (map_of fs ''_id'' = Some (JNum 0));
              removed = (if excl then [''_id''] else []);
              fs1 = AList.update ''_id'' (JNum 1) fs
          in if \<not> truthy (js_get fs1 (field_of p))
             then (p\<lparr>fields_p := Some (AList.update (field_of p) (JNum 1) fs1)\<rparr>,
                   removed @ [field_of p], True)
             else (p\<lparr>fields_p := Some fs1\<rparr>, removed, excl))"

text \<open>Lines 74-75.\<close>

definition sortAsc :: "params \<Rightarrow> jsval" where
  "sortAsc p =
     js_or (js_and (js_not (sortAscending p)) (previous p))
           (js_and (sortAscending p) (js_not (previous p)))"

definition comparisonOp :: "params \<Rightarrow> string" where
  "comparisonOp p = (if truthy (sortAsc p) then ''$gt'' else ''$lt'')"

text \<open>Lines 77-123: the range filter pushed onto \<open>queries\<close>, if any.\<close>

definition cursor_filter :: "params \<Rightarrow> jsval \<Rightarrow> filter" where
  "cursor_filter p c =
     (if shouldSecondarySortOnId p
      then Or_of [Fields [(field_of p, comparisonOp p, js_index c 0)],
                  Fields [(field_of p, ''$eq'', js_index c 0),
                          (''_id'', comparisonOp p, js_index c 1)]]
      else Fields [(field_of p, comparisonOp p, c)])"

definition queries :: "params \<Rightarrow> filter list" where
  "queries p =
     [Caller (query p)] @
     (if truthy (next p) then [cursor_filter p (next p)]
      else if truthy (previous p) then [cursor_filter p (previous p)]
      else [])"

text \<open>Lines 125-136.\<close>

definition sortDir :: "params \<Rightarrow> int" where
  "sortDir p = (if truthy (sortAsc p) then 1 else - 1)"

definition sort_spec :: "params \<Rightarrow> (string \<times> int) list" where
  "sort_spec p =
     (if shouldSecondarySortOnId p
      then [(field_of p, sortDir p), (''_id'', sortDir p)]
      else [(field_of p, sortDir p)])"

text \<open>Lines 139-142: the query that is issued.\<close>

definition find_call :: "params \<Rightarrow> find_query" where
  "find_call p =
     \<lparr>q_filter = And_of (queries p), q_fields = fields_p p,
      q_sort = sort_spec p, q_limit = limit_of p + 1\<rparr>"

text \<open>Lines 144-146.\<close>

definition hasMore :: "params \<Rightarrow> doc list \<Rightarrow> bool" where
  "hasMore p rs = (int (length rs) > limit_of p)"

definition drop_extra :: "params \<Rightarrow> doc list \<Rightarrow> doc list" where
  "drop_extra p rs = (if hasMore p rs then butlast rs else rs)"

text \<open>Line 152.\<close>

definition restore_order :: "params \<Rightarrow> doc list \<Rightarrow> doc list" where
  "restore_order p rs = (if truthy (previous p) then rev rs else rs)"

text \<open>Lines 162-177: the cursor of a boundary document, the encoding of its sort keys.\<close>

definition cursor_value :: "params \<Rightarrow> doc \<Rightarrow> jsval" where
  "cursor_value p d =
     (if shouldSecondarySortOnId p
      then JArr [get_prop d (field_of p), get_prop d ''_id'']
      else get_prop d (field_of p))"

definition cursor_of :: "(jsval \<Rightarrow> string) \<Rightarrow> params \<Rightarrow> doc \<Rightarrow> string" where
  "cursor_of encode p d = encode (cursor_value p d)"

text \<open>Lines 143-185: the callback that assembles the page from the store's answer.\<close>

definition assemble ::
  "(jsval \<Rightarrow> string) \<Rightarrow> params \<Rightarrow> string list \<Rightarrow> bool \<Rightarrow> doc list \<Rightarrow> response" where
  "assemble encode p removed remove_flag rs0 =
     (let more = hasMore p rs0;
          rs = restore_order p (drop_extra p rs0)
      in \<lparr>results = (if remove_flag then map (omit removed) rs else rs),
          resp_previous = (case rs of [] \<Rightarrow> None | d # ds \<Rightarrow> Some (cursor_of encode p d)),
          hasPrevious = (truthy (next p) \<or> truthy (js_and (previous p) (JBool more))),
          resp_next = (case rs of [] \<Rightarrow> None | d # ds \<Rightarrow> Some (cursor_of encode p (last rs))),
          hasNext = (truthy (previous p) \<or> more)\<rparr>)"

text \<open>
  The whole call. \<open>decode\<close> and \<open>encode\<close> are \<open>bsonUrlEncoding\<close>'s (not among the
  sources), \<open>store\<close> is the collaborator answering a query with documents or a failure.
  The result is the outcome (a thrown or rejected error, or the response), the params
  object as the caller sees it afterwards, and the queries issued to the store.
\<close>

definition paginate ::
  "config \<Rightarrow> (jsval \<Rightarrow> 'e + jsval) \<Rightarrow> (jsval \<Rightarrow> string) \<Rightarrow> (find_query \<Rightarrow> 'e + doc list)
     \<Rightarrow> params \<Rightarrow> ('e + response) \<times> params \<times> find_query list" where
  "paginate cfg decode encode store p0 =
     (case decode_if_given decode (previous p0) of
        Inl e \<Rightarrow> (Inl e, p0, [])
      | Inr pv \<Rightarrow>
          let p1 = p0\<lparr>previous := pv\<rparr> in
          (case decode_if_given decode (next p1) of
             Inl e \<Rightarrow> (Inl e, p1, [])
           | Inr nx \<Rightarrow>
               let p2 = clamp_limit cfg (defaults cfg (p1\<lparr>next := nx\<rparr>));
                   (p3, removed, remove_flag) = include_fields p2;
                   q = find_call p3
               in (case store q of
                     Inl e \<Rightarrow> (Inl e, p3, [q])
                   | Inr rs \<Rightarrow> (Inr (assemble encode p3 removed remove_flag rs), p3, [q]))))"

section \<open>The record store\<close>

text \<open>
  The collaborator behind \<open>this.find\<close> is mongoose, which is not part of the repository.
  Its contract is modelled for the properties that speak of a record collection: a
  collection is a list of documents, \<open>qsem\<close> is the meaning of the caller's own query
  object, and \<open>rank\<close> places every value in the store's linear comparison order. \<open>$gt\<close>,
  \<open>$lt\<close>, \<open>$eq\<close> and \<open>sort\<close> compare by rank. The answer to a query is the matching
  documents, sorted, cut to the limit and projected.
\<close>

definition compare_op :: "(jsval \<Rightarrow> 'k::linorder) \<Rightarrow> string \<Rightarrow> jsval \<Rightarrow> jsval \<Rightarrow> bool" where
  "compare_op rank op x v =
     (if op = ''$gt'' then rank v < rank x
      else if op = ''$lt'' then rank x < rank v
      else if op = ''$eq'' then rank x = rank v
      else False)"

fun matches :: "(jsval \<Rightarrow> doc \<Rightarrow> bool) \<Rightarrow> (jsval \<Rightarrow> 'k::linorder) \<Rightarrow> filter \<Rightarrow> doc \<Rightarrow> bool" where
  "matches qsem rank (Caller q) d = qsem q d"
| "matches qsem rank (Fields cs) d =
     list_all (\<lambda>c. compare_op rank (fst (snd c)) (get_prop d (fst c)) (snd (snd c))) cs"
| "matches qsem rank (Or_of fs) d = list_ex (\<lambda>f. matches qsem rank f d) fs"
| "matches qsem rank (And_of fs) d = list_all (\<lambda>f. matches qsem rank f d) fs"

text \<open>The order a sort specification puts on documents: field by field, 1 ascending.\<close>

fun doc_less :: "(jsval \<Rightarrow> 'k::linorder) \<Rightarrow> (string \<times> int) list \<Rightarrow> doc \<Rightarrow> doc \<Rightarrow> bool" where
  "doc_less rank [] a b = False"
| "doc_less rank ((f, dir) # spec) a b =
     (let x = rank (get_prop a f); y = rank (get_prop b f)
      in if x = y then doc_less rank spec a b
         else if 0 \<le> dir then x < y else y < x)"

text \<open>A stable insertion sort by a strict order.\<close>

fun insert_by :: "('a \<Rightarrow> 'a \<Rightarrow> bool) \<Rightarrow> 'a \<Rightarrow> 'a list \<Rightarrow> 'a list" where
  "insert_by lt x [] = [x]"
| "insert_by lt x (y # ys) = (if lt y x then y # insert_by lt x ys else x # y # ys)"

definition sort_by :: "('a \<Rightarrow> 'a \<Rightarrow> bool) \<Rightarrow> 'a list \<Rightarrow> 'a list" where
  "sort_by lt xs = foldr (insert_by lt) xs []"

text \<open>
  A projection object applied to a document. With a truthy entry for a field other than
  \<open>_id\<close> it lists the fields to keep (\<open>_id\<close> stays unless it is switched off); otherwise
  it lists the fields to drop.
\<close>

definition project :: "doc option \<Rightarrow> doc \<Rightarrow> doc" where
  "project proj d =
     (case proj of
        None \<Rightarrow> d
      | Some fs \<Rightarrow>
          if list_ex (\<lambda>kv. fst kv \<noteq> ''_id'' \<and> truthy (snd kv)) fs
          then filter (\<lambda>kv. truthy (get_prop fs (fst kv))
                          \<or> (fst kv = ''_id'' \<and> map_of fs ''_id'' = None)) d
          else filter (\<lambda>kv. map_of fs (fst kv) = None \<or> truthy (get_prop fs (fst kv))) d)"

text \<open>\<open>limit(n)\<close>: at most \<open>|n|\<close> documents, and no bound for 0.\<close>

definition limit_to :: "int \<Rightarrow> 'a list \<Rightarrow> 'a list" where
  "limit_to n xs = (if n = 0 then xs else take (nat \<bar>n\<bar>) xs)"

definition mongo_find ::
  "(jsval \<Rightarrow> doc \<Rightarrow> bool) \<Rightarrow> (jsval \<Rightarrow> 'k::linorder) \<Rightarrow> doc list \<Rightarrow> find_query \<Rightarrow> 'e + doc list" where
  "mongo_find qsem rank coll q =
     Inr (map (project (q_fields q))
            (limit_to (q_limit q)
               (sort_by (doc_less rank (q_sort q))
                  (filter (matches qsem rank (q_filter q)) coll))))"

text \<open>
  The position a decoded cursor stands for in the sort order: a document that holds
  just the sort keys the range filter compares with.
\<close>

definition cursor_doc :: "params \<Rightarrow> jsval \<Rightarrow> doc" where
  "cursor_doc p c =
     (if shouldSecondarySortOnId p
      then [(field_of p, js_index c 0), (''_id'', js_index c 1)]
      else [(field_of p, c)])"

section \<open>Sample data\<close>

text \<open>
  A small collection, a configuration and a cursor codec for numbers and pairs of
  numbers, used to run the model on concrete calls.
\<close>

definition sample_config :: config where
  "sample_config = \<lparr>DEFAULT_LIMIT = 2, MAX_LIMIT = 3\<rparr>"

definition post :: "int \<Rightarrow> int \<Rightarrow> doc" where
  "post i d = [(''_id'', JNum i), (''date'', JNum d), (''title'', JStr ''Post'')]"

definition posts :: "doc list" where
  "posts = [post 3 1, post 0 1, post 1 2, post 2 2, post 4 3]"

definition sample_rank :: "jsval \<Rightarrow> int" where
  "sample_rank v = (case v of JNum n \<Rightarrow> n | _ \<Rightarrow> 0)"

definition match_all :: "jsval \<Rightarrow> doc \<Rightarrow> bool" where
  "match_all q d = True"

definition sample_encode :: "jsval \<Rightarrow> string" where
  "sample_encode v =
     (case v of
        JNum n \<Rightarrow> CHR ''n'' # replicate (nat n) CHR ''i''
      | JArr [JNum a, JNum b] \<Rightarrow> replicate (nat a) CHR ''f'' @ ''-'' @ replicate (nat b) CHR ''i''
      | _ \<Rightarrow> ''?'')"

definition sample_decode :: "jsval \<Rightarrow> string + jsval" where
  "sample_decode t =
     (case t of
        JStr s \<Rightarrow>
          if s \<noteq> [] \<and> hd s = CHR ''n'' then Inr (JNum (int (length (tl s))))
          else if CHR ''-'' \<in> set s
          then Inr (JArr [JNum (int (length (takeWhile (\<lambda>c. c \<noteq> CHR ''-'') s))),
                          JNum (int (length (tl (dropWhile (\<lambda>c. c \<noteq> CHR ''-'') s))))])
          else Inl ''InvalidCursor''
      | _ \<Rightarrow> Inl ''InvalidCursor'')"

definition sample_store :: "find_query \<Rightarrow> string + doc list" where
  "sample_store = mongo_find match_all sample_rank posts"

definition no_params :: params where
  "no_params = \<lparr>query = JUndefined, limit = None, fields_p = None, paginatedField = None,
     next = JUndefined, previous = JUndefined, sortAscending = JUndefined\<rparr>"

definition by_date :: params where
  "by_date = no_params\<lparr>sortAscending := JBool True, paginatedField := Some ''date''\<rparr>"

definition ascending :: params where
  "ascending = no_params\<lparr>sortAscending := JBool True\<rparr>"

definition only_title :: params where
  "only_title = no_params\<lparr>sortAscending := JBool True, fields_p := Some [(''title'', JNum 1)]\<rparr>"

definition after_1 :: params where
  "after_1 = no_params\<lparr>sortAscending := JBool True, limit := Some 1, next := JStr ''ni''\<rparr>"

definition after_1_before_3 :: params where
  "after_1_before_3 = after_1\<lparr>previous := JStr ''niii''\<rparr>"


definition by_date_after :: params where
  "by_date_after = by_date\<lparr>next := JStr ''f-iii''\<rparr>"

definition by_date_before :: params where
  "by_date_before = by_date\<lparr>previous := JStr ''ff-i''\<rparr>"

definition title_by_date :: params where
  "title_by_date = by_date\<lparr>fields_p := Some [(''title'', JNum 1), (''_id'', JNum 0)]\<rparr>"

definition garbage_next :: params where
  "garbage_next = no_params\<lparr>next := JStr ''garbage''\<rparr>"

definition q_by_date_after :: find_query where
  "q_by_date_after =
     \<lparr>q_filter = And_of [Caller (JObj []),
         Or_of [Fields [(''date'', ''$gt'', JNum 1)],
                Fields [(''date'', ''$eq'', JNum 1), (''_id'', ''$gt'', JNum 3)]]],
      q_fields = None, q_sort = [(''date'', 1), (''_id'', 1)], q_limit = 3\<rparr>"

definition q_by_date_before :: find_query where
  "q_by_date_before =
     \<lparr>q_filter = And_of [Caller (JObj []),
         Or_of [Fields [(''date'', ''$lt'', JNum 2)],
                Fields [(''date'', ''$eq'', JNum 2), (''_id'', ''$lt'', JNum 1)]]],
      q_fields = None, q_sort = [(''date'', - 1), (''_id'', - 1)], q_limit = 3\<rparr>"

definition q_title_by_date :: find_query where
  "q_title_by_date =
     \<lparr>q_filter = And_of [Caller (JObj [])],
      q_fields = Some [(''title'', JNum 1), (''_id'', JNum 1), (''date'', JNum 1)],
      q_sort = [(''date'', 1), (''_id'', 1)], q_limit = 3\<rparr>"

definition q_after_1_before_3 :: find_query where
  "q_after_1_before_3 =
     \<lparr>q_filter = And_of [Caller (JObj []), Fields [(''_id'', ''$lt'', JNum 1)]],
      q_fields = None, q_sort = [(''_id'', - 1)], q_limit = 2\<rparr>"

definition by_id :: params where
  "by_id = no_params\<lparr>limit := Some 2\<rparr>"

definition before_zero :: params where
  "before_zero = ascending\<lparr>previous := JStr ''n''\<rparr>"

definition after_zero :: params where
  "after_zero = ascending\<lparr>next := JStr ''n''\<rparr>"

definition two_posts :: "find_query \<Rightarrow> string + doc list" where
  "two_posts = mongo_find match_all sample_rank [post 0 1, post 1 2]"

section \<open>Basic facts\<close>

lemma include_fields_frame:
  assumes "include_fields p = (p', removed, flag)"
  shows "query p' = query p" "limit p' = limit p" "paginatedField p' = paginatedField p"
        "next p' = next p" "previous p' = previous p" "sortAscending p' = sortAscending p"
  using assms by (auto simp: include_fields_def Let_def split: option.splits if_splits)

lemma include_fields_derived:
  assumes "include_fields p = (p', removed, flag)"
  shows "limit_of p' = limit_of p" "field_of p' = field_of p" "sortAsc p' = sortAsc p"
        "shouldSecondarySortOnId p' = shouldSecondarySortOnId p"
  using include_fields_frame[OF assms]
  by (simp_all add: limit_of_def field_of_def sortAsc_def shouldSecondarySortOnId_def)

lemma include_fields_flag:
  assumes "include_fields p = (p', removed, flag)"
  shows "flag \<or> removed = []"
  using assms by (auto simp: include_fields_def Let_def split: option.splits if_splits)

lemma omit_Nil: "omit [] d = d"
  by (simp add: omit_def)

lemma map_omit_Nil: "map (omit []) ds = ds"
  by (induction ds) (simp_all add: omit_Nil)

lemma paginate_issued:
  assumes "paginate cfg decode encode store p0 = (out, p', [q])"
  obtains pv nx removed flag where
    "decode_if_given decode (previous p0) = Inr pv"
    "decode_if_given decode (next p0) = Inr nx"
    "include_fields (clamp_limit cfg (defaults cfg (p0\<lparr>previous := pv, next := nx\<rparr>))) = (p', removed, flag)"
    "q = find_call p'"
    "out = (case store q of Inl e \<Rightarrow> Inl e | Inr rs \<Rightarrow> Inr (assemble encode p' removed flag rs))"
  using assms
  by (auto simp: paginate_def Let_def split: sum.splits prod.splits)

lemma paginate_returned:
  assumes "paginate cfg decode encode store p0 = (Inr resp, p', calls)"
  obtains q where "calls = [q]"
  using assms by (auto simp: paginate_def Let_def split: sum.splits prod.splits)

lemma limit_after:
  "limit (clamp_limit cfg (defaults cfg p)) =
     Some (let l0 = (case limit p of None \<Rightarrow> DEFAULT_LIMIT cfg | Some l \<Rightarrow> l);
               l1 = (if l0 < 1 then 1 else l0)
           in if l1 > MAX_LIMIT cfg then MAX_LIMIT cfg else l1)"
  by (auto simp: clamp_limit_def defaults_def Let_def split: option.splits)

lemma prepared_frame:
  "paginatedField (clamp_limit cfg (defaults cfg p)) =
     Some (case paginatedField p of None \<Rightarrow> ''_id'' | Some f \<Rightarrow> f)"
  "query (clamp_limit cfg (defaults cfg p)) = (if query p = JUndefined then JObj [] else query p)"
  "next (clamp_limit cfg (defaults cfg p)) = next p"
  "previous (clamp_limit cfg (defaults cfg p)) = previous p"
  "sortAscending (clamp_limit cfg (defaults cfg p)) = sortAscending p"
  "fields_p (clamp_limit cfg (defaults cfg p)) = fields_p p"
  by (auto simp: clamp_limit_def defaults_def Let_def split: option.splits)

lemma mongo_find_honours:
  assumes "mongo_find qsem rank coll q = Inr rs" "1 \<le> q_limit q"
  shows "int (length rs) \<le> q_limit q"
  using assms by (auto simp: mongo_find_def limit_to_def)

lemma run_by_date:
  "paginate sample_config sample_decode sample_encode sample_store by_date =
     (Inr \<lparr>results = [post 0 1, post 3 1], resp_previous = Some ''f-'', hasPrevious = False,
           resp_next = Some ''f-iii'', hasNext = True\<rparr>,
      by_date\<lparr>query := JObj [], limit := Some 2\<rparr>,
      [\<lparr>q_filter = And_of [Caller (JObj [])], q_fields = None,
        q_sort = [(''date'', 1), (''_id'', 1)], q_limit = 3\<rparr>])"
  by code_simp

lemma decoded_truthy:
  assumes "decode_if_given decode v = Inr w"
  shows "truthy w = (truthy v \<and> (\<exists>u. decode v = Inr u \<and> truthy u))"
  using assms by (auto simp: decode_if_given_def split: if_splits)

lemma truthy_sortAsc:
  "truthy (sortAsc p) =
     ((truthy (sortAscending p) \<and> \<not> truthy (previous p)) \<or>
      (\<not> truthy (sortAscending p) \<and> truthy (previous p)))"
  by (auto simp: sortAsc_def js_or_def js_and_def js_not_def)

lemma paginate_frame:
  assumes "paginate cfg decode encode store p0 = (out, p', [q])"
  shows "decode_if_given decode (previous p0) = Inr (previous p')"
    and "decode_if_given decode (next p0) = Inr (next p')"
    and "sortAscending p' = sortAscending p0"
    and "field_of p' = (case paginatedField p0 of None \<Rightarrow> ''_id'' | Some f \<Rightarrow> f)"
    and "query p' = (if query p0 = JUndefined then JObj [] else query p0)"
    and "q = find_call p'"
proof -
  from assms obtain pv nx removed flag where
    pv: "decode_if_given decode (previous p0) = Inr pv" and
    nx: "decode_if_given decode (next p0) = Inr nx" and
    inc: "include_fields (clamp_limit cfg (defaults cfg (p0\<lparr>previous := pv, next := nx\<rparr>))) = (p', removed, flag)" and
    q: "q = find_call p'"
    by (rule paginate_issued)
  note fr = include_fields_frame[OF inc]
  show "decode_if_given decode (previous p0) = Inr (previous p')"
    using pv fr(5) by (simp add: prepared_frame)
  show "decode_if_given decode (next p0) = Inr (next p')"
    using nx fr(4) by (simp add: prepared_frame)
  show "sortAscending p' = sortAscending p0"
    using fr(6) by (simp add: prepared_frame)
  show "field_of p' = (case paginatedField p0 of None \<Rightarrow> ''_id'' | Some f \<Rightarrow> f)"
    using fr(3) by (simp add: prepared_frame field_of_def)
  show "query p' = (if query p0 = JUndefined then JObj [] else query p0)"
    using fr(1) by (simp add: prepared_frame)
  show "q = find_call p'" by (rule q)
qed

lemma include_fields_Some:
  assumes "fields_p p = Some fs"
  shows "include_fields p =
     (let fs1 = AList.update ''_id'' (JNum 1) fs;
          removed = (if map_of fs ''_id'' = Some (JNum 0) then [''_id''] else []) @
                    (if field_of p \<noteq> ''_id'' \<and> \<not> truthy (js_get fs (field_of p))
                     then [field_of p] else []);
          fs2 = (if field_of p \<noteq> ''_id'' \<and> \<not> truthy (js_get fs (field_of p))
                 then AList.update (field_of p) (JNum 1) fs1 else fs1)
      in (p\<lparr>fields_p := Some fs2\<rparr>, removed, removed \<noteq> []))"
  using assms
  by (auto simp: include_fields_def Let_def js_get_def update_conv')

lemma omit_absent:
  assumes "k \<in> set ks"
  shows "map_of (omit ks d) k = None"
  using assms by (induction d) (auto simp: omit_def)


lemma decode_if_given_same:
  assumes "decode_if_given decode v = Inr w"
  shows "(w = v) = (\<not> truthy v \<or> decode v = Inr v)"
  using assms by (auto simp: decode_if_given_def split: if_splits)


lemma defaults_sortAscending:
  "defaults cfg (p\<lparr>sortAscending := x\<rparr>) = (defaults cfg p)\<lparr>sortAscending := x\<rparr>"
  by (simp add: defaults_def)

lemma clamp_limit_sortAscending:
  "clamp_limit cfg (p\<lparr>sortAscending := x\<rparr>) = (clamp_limit cfg p)\<lparr>sortAscending := x\<rparr>"
  by (simp add: clamp_limit_def Let_def split: option.splits)

lemma include_fields_sortAscending:
  "include_fields (p\<lparr>sortAscending := x\<rparr>) =
     (case include_fields p of (p', removed, flag) \<Rightarrow> (p'\<lparr>sortAscending := x\<rparr>, removed, flag))"
  by (simp add: include_fields_def Let_def field_of_def split: option.splits)

lemma sortAsc_undefined:
  assumes "sortAscending p = JUndefined"
  shows "truthy (sortAsc (p\<lparr>sortAscending := JBool False\<rparr>)) = truthy (sortAsc p)"
  using assms by (simp add: truthy_sortAsc)

lemma find_call_undefined:
  assumes "sortAscending p = JUndefined"
  shows "find_call (p\<lparr>sortAscending := JBool False\<rparr>) = find_call p"
  using sortAsc_undefined[OF assms]
  by (simp add: find_call_def queries_def cursor_filter_def comparisonOp_def sort_spec_def
      sortDir_def shouldSecondarySortOnId_def field_of_def limit_of_def)

lemma cursor_of_sortAscending:
  "cursor_of encode (p\<lparr>sortAscending := x\<rparr>) = cursor_of encode p"
  by (rule ext) (simp add: cursor_of_def cursor_value_def shouldSecondarySortOnId_def field_of_def)

lemma page_sortAscending:
  "hasMore (p\<lparr>sortAscending := x\<rparr>) rs = hasMore p rs"
  "drop_extra (p\<lparr>sortAscending := x\<rparr>) rs = drop_extra p rs"
  "restore_order (p\<lparr>sortAscending := x\<rparr>) rs = restore_order p rs"
  by (simp_all add: hasMore_def drop_extra_def restore_order_def limit_of_def)

lemma assemble_sortAscending:
  "assemble encode (p\<lparr>sortAscending := x\<rparr>) removed flag rs = assemble encode p removed flag rs"
  by (simp add: assemble_def cursor_of_sortAscending page_sortAscending cong: list.case_cong)

lemma run_by_date_after:
  "paginate sample_config sample_decode sample_encode sample_store by_date_after =
     (Inr \<lparr>results = [post 1 2, post 2 2], resp_previous = Some ''ff-i'', hasPrevious = True,
           resp_next = Some ''ff-ii'', hasNext = True\<rparr>,
      by_date\<lparr>query := JObj [], limit := Some 2, next := JArr [JNum 1, JNum 3]\<rparr>,
      [q_by_date_after])"
  by code_simp

lemma answer_by_date_after: "sample_store q_by_date_after = Inr [post 1 2, post 2 2, post 4 3]"
  by code_simp

lemma run_by_date_before:
  "paginate sample_config sample_decode sample_encode sample_store by_date_before =
     (Inr \<lparr>results = [post 0 1, post 3 1], resp_previous = Some ''f-'', hasPrevious = False,
           resp_next = Some ''f-iii'', hasNext = True\<rparr>,
      by_date\<lparr>query := JObj [], limit := Some 2, previous := JArr [JNum 2, JNum 1]\<rparr>,
      [q_by_date_before])"
  by code_simp

lemma run_title_by_date:
  "paginate sample_config sample_decode sample_encode sample_store title_by_date =
     (Inr \<lparr>results = [[(''title'', JStr ''Post'')], [(''title'', JStr ''Post'')]],
           resp_previous = Some ''f-'', hasPrevious = False,
           resp_next = Some ''f-iii'', hasNext = True\<rparr>,
      by_date\<lparr>query := JObj [], limit := Some 2,
        fields_p := Some [(''title'', JNum 1), (''_id'', JNum 1), (''date'', JNum 1)]\<rparr>,
      [q_title_by_date])"
  by code_simp

lemma answer_title_by_date:
  "sample_store q_title_by_date =
     Inr [[(''_id'', JNum 0), (''date'', JNum 1), (''title'', JStr ''Post'')],
          [(''_id'', JNum 3), (''date'', JNum 1), (''title'', JStr ''Post'')],
          [(''_id'', JNum 1), (''date'', JNum 2), (''title'', JStr ''Post'')]]"
  by code_simp

lemma run_after_1_before_3:
  "paginate sample_config sample_decode sample_encode sample_store after_1_before_3 =
     (Inr \<lparr>results = [post 0 1], resp_previous = Some ''n'', hasPrevious = True,
           resp_next = Some ''n'', hasNext = True\<rparr>,
      ascending\<lparr>query := JObj [], limit := Some 1, paginatedField := Some ''_id'',
        next := JNum 1, previous := JNum 3\<rparr>,
      [q_after_1_before_3])"
  by code_simp

lemma answer_after_1_before_3: "sample_store q_after_1_before_3 = Inr [post 0 1]"
  by code_simp

subsection \<open>What the code decides from the decoded cursors\<close>

text \<open>
  Lines 74-152 read \<open>params.next\<close> and \<open>params.previous\<close> after lines 30-31 have
  replaced a truthy token by its decoded value, and test them for truthiness. The scan
  direction, the flags and the range filter are the following functions of the decoded
  values; a supplied token whose decoded value is falsy is treated like no token.
\<close>

lemma direction_after_decoding:
  assumes run: "paginate cfg decode encode store p0 = (out, p', [q])"
  shows "let asc = ((truthy (sortAscending p0) \<and> \<not> truthy (previous p')) \<or>
                    (\<not> truthy (sortAscending p0) \<and> truthy (previous p')));
             f = (case paginatedField p0 of None \<Rightarrow> ''_id'' | Some f \<Rightarrow> f);
             dir = (if asc then 1 else - 1)
         in decode_if_given decode (previous p0) = Inr (previous p')
            \<and> truthy (sortAsc p') = asc
            \<and> comparisonOp p' = (if asc then ''$gt'' else ''$lt'')
            \<and> q_sort q = (if f \<noteq> ''_id'' then [(f, dir), (''_id'', dir)] else [(f, dir)])"
  using paginate_frame[OF run]
  by (simp add: Let_def truthy_sortAsc comparisonOp_def find_call_def sort_spec_def sortDir_def
      shouldSecondarySortOnId_def)

lemma flags_after_decoding:
  assumes run: "paginate cfg decode encode store p0 = (Inr resp, p', [q])"
      and rs: "store q = Inr rs"
  shows "decode_if_given decode (next p0) = Inr (next p')
       \<and> decode_if_given decode (previous p0) = Inr (previous p')
       \<and> hasMore p' rs = (int (length rs) > limit_of p')
       \<and> hasPrevious resp = (truthy (next p') \<or> (truthy (previous p') \<and> hasMore p' rs))
       \<and> hasNext resp = (truthy (previous p') \<or> hasMore p' rs)"
proof -
  from run obtain removed flag where
    out: "Inr resp = (case store q of Inl e \<Rightarrow> Inl e | Inr rs \<Rightarrow> Inr (assemble encode p' removed flag rs))"
    by (rule paginate_issued)
  then have resp: "resp = assemble encode p' removed flag rs" using rs by simp
  show ?thesis
    using paginate_frame(1,2)[OF run]
    by (auto simp: resp assemble_def Let_def js_and_def hasMore_def)
qed

lemma filter_after_decoding:
  assumes run: "paginate cfg decode encode store p0 = (out, p', [q])"
  shows "let f = (case paginatedField p0 of None \<Rightarrow> ''_id'' | Some f \<Rightarrow> f);
             op = comparisonOp p';
             own = (if query p0 = JUndefined then JObj [] else query p0);
             c = (if truthy (next p') then next p' else previous p')
         in decode_if_given decode (next p0) = Inr (next p')
            \<and> decode_if_given decode (previous p0) = Inr (previous p')
            \<and> q_filter q = And_of (Caller own #
                (if truthy c
                 then [if f \<noteq> ''_id''
                       then Or_of [Fields [(f, op, js_index c 0)],
                                   Fields [(f, ''$eq'', js_index c 0), (''_id'', op, js_index c 1)]]
                       else Fields [(f, op, c)]]
                 else []))"
  using paginate_frame[OF run]
  by (simp add: Let_def find_call_def queries_def cursor_filter_def shouldSecondarySortOnId_def)


lemma js_get_own: "k \<notin> set object_prototype_names \<Longrightarrow> js_get d k = get_prop d k"
  by (auto simp: js_get_def get_prop_def object_prototype_names_def split: option.splits)

lemma top_level_own: "top_level k \<Longrightarrow> js_get d k = get_prop d k"
  by (simp add: top_level_def js_get_own)

lemma top_level_samples: "top_level ''_id''" "top_level ''date''"
  by (simp_all add: top_level_def object_prototype_names_def)

lemma cursor_of_unfold:
  "cursor_of encode p d =
     encode (if field_of p \<noteq> ''_id'' then JArr [get_prop d (field_of p), get_prop d ''_id'']
             else get_prop d (field_of p))"
  by (simp add: cursor_of_def cursor_value_def shouldSecondarySortOnId_def)

text \<open>
  A \<open>paginatedField\<close> that every object inherits (here \<open>constructor\<close>) is truthy in
  \<open>fields[params.paginatedField]\<close> at line 66, so the projection is not extended with
  it and nothing is recorded for stripping.
\<close>

lemma inherited_property_not_forced:
  "include_fields (only_title\<lparr>paginatedField := Some ''constructor''\<rparr>)
     = (only_title\<lparr>paginatedField := Some ''constructor'',
                    fields_p := Some [(''title'', JNum 1), (''_id'', JNum 1)]\<rparr>, [], False)"
  by code_simp

section \<open>The page size\<close>



section \<open>Scan direction\<close>

text \<open>
  C2. The property: for every call, the scan is ascending exactly when \<open>sortAscending\<close>
  is truthy and \<open>previous\<close> is not supplied, or \<open>sortAscending\<close> is falsy and
  \<open>previous\<close> is supplied; the operator is \<open>$gt\<close> when ascending and \<open>$lt\<close> otherwise,
  and the sort direction 1 or -1 accordingly. The code departs from it when a supplied
  \<open>previous\<close> decodes to a falsy value. The token \<open>n\<close> is the cursor of a document
  whose \<open>_id\<close> is 0 and decodes to 0. With \<open>sortAscending: true\<close> and this \<open>previous\<close>
  the property demands a descending scan (\<open>$lt\<close>, -1); line 74 finds
  \<open>params.previous\<close> falsy, and the query sorts \<open>_id\<close> by 1 with \<open>$gt\<close> as the operator.
\<close>

theorem falsy_previous_scans_ascending:
  "truthy (sortAscending before_zero) \<and> truthy (previous before_zero)
   \<and> sample_decode (previous before_zero) = Inr (JNum 0)
   \<and> snd (snd (paginate sample_config sample_decode sample_encode sample_store before_zero))
       = [\<lparr>q_filter = And_of [Caller (JObj [])], q_fields = None,
           q_sort = [(''_id'', 1)], q_limit = 3\<rparr>]
   \<and> comparisonOp (fst (snd (paginate sample_config sample_decode sample_encode sample_store
         before_zero))) = ''$gt''"
  by code_simp

section \<open>hasPrevious and hasNext\<close>

text \<open>
  C3. The property: \<open>hasPrevious\<close> is true exactly when \<open>next\<close> was supplied, or
  \<open>previous\<close> was supplied and the store answered with more than \<open>limit\<close> documents;
  \<open>hasNext\<close> is true exactly when \<open>previous\<close> was supplied or the store answered with
  more than \<open>limit\<close> documents. The code departs from it when a supplied cursor decodes
  to a falsy value, since lines 148-149 test the decoded value. With the token \<open>n\<close>
  (the cursor of \<open>_id\<close> 0) as \<open>next\<close>, \<open>hasPrevious\<close> is false; with the same token as
  \<open>previous\<close> on a collection of two documents, \<open>hasNext\<close> is false.
\<close>

theorem falsy_cursor_flags:
  "truthy (next after_zero) \<and> sample_decode (next after_zero) = Inr (JNum 0)
   \<and> fst (paginate sample_config sample_decode sample_encode sample_store after_zero)
       = Inr \<lparr>results = [post 0 1, post 1 2], resp_previous = Some ''n'', hasPrevious = False,
               resp_next = Some ''ni'', hasNext = True\<rparr>
   \<and> truthy (previous before_zero) \<and> sample_decode (previous before_zero) = Inr (JNum 0)
   \<and> fst (paginate sample_config sample_decode sample_encode two_posts before_zero)
       = Inr \<lparr>results = [post 0 1, post 1 2], resp_previous = Some ''n'', hasPrevious = False,
               resp_next = Some ''ni'', hasNext = False\<rparr>"
  by code_simp

section \<open>The range filter\<close>

text \<open>
  C4. The property: for every call in which a cursor is supplied, the filter is
  \<open>$and\<close> of the caller's query and a range filter on the cursor: with
  \<open>paginatedField\<close> other than \<open>_id\<close> the disjunction
  \<open>(f op c.field) or (f = c.field and _id op c.id)\<close>, otherwise \<open>f op c\<close>. The code
  departs from it when the supplied cursor decodes to a falsy value, since lines 77 and
  100 test the decoded value: with the token \<open>n\<close> (the cursor of \<open>_id\<close> 0) as \<open>next\<close>
  the filter is \<open>{$and: [{}]}\<close>, with no range filter, both when paginating by \<open>_id\<close>
  and by \<open>date\<close>.
\<close>

theorem falsy_cursor_no_range_filter:
  "truthy (next after_zero) \<and> sample_decode (next after_zero) = Inr (JNum 0)
   \<and> map q_filter (snd (snd (paginate sample_config sample_decode sample_encode sample_store
         after_zero))) = [And_of [Caller (JObj [])]]
   \<and> map q_filter (snd (snd (paginate sample_config sample_decode sample_encode sample_store
         (by_date\<lparr>next := JStr ''n''\<rparr>)))) = [And_of [Caller (JObj [])]]"
  by code_simp

section \<open>The default of sortAscending\<close>

text \<open>
  C6, as claimed: a call without \<open>sortAscending\<close> behaves like the same call with
  \<open>sortAscending: true\<close>. It does not: \<open>_.defaults\<close> (lines 33-37) gives
  \<open>sortAscending\<close> no default, and with no parameter at all the query sorts \<open>_id\<close> by -1
  where \<open>sortAscending: true\<close> sorts it by 1, and the pages differ.
\<close>

theorem default_sort_counterexample:
  "map q_sort (snd (snd (paginate sample_config sample_decode sample_encode sample_store no_params)))
     = [[(''_id'', - 1)]]
   \<and> map q_sort (snd (snd (paginate sample_config sample_decode sample_encode sample_store ascending)))
     = [[(''_id'', 1)]]
   \<and> fst (paginate sample_config sample_decode sample_encode sample_store no_params)
     \<noteq> fst (paginate sample_config sample_decode sample_encode sample_store ascending)"
  by code_simp

text \<open>
  C6, amended: a call without \<open>sortAscending\<close> behaves like the same call with
  \<open>sortAscending: false\<close>: the same outcome, the same queries issued, and the same params
  object afterwards but for \<open>sortAscending\<close> itself.
\<close>

theorem omitted_sortAscending_is_false:
  assumes "sortAscending p0 = JUndefined"
  shows "paginate cfg decode encode store (p0\<lparr>sortAscending := JBool False\<rparr>) =
           (case paginate cfg decode encode store p0 of
              (out, p', calls) \<Rightarrow> (out, p'\<lparr>sortAscending := JBool False\<rparr>, calls))"
proof (cases "decode_if_given decode (previous p0)")
  case (Inl e)
  then show ?thesis by (simp add: paginate_def)
next
  case pv: (Inr pv)
  show ?thesis
  proof (cases "decode_if_given decode (next p0)")
    case (Inl e)
    then show ?thesis using pv by (simp add: paginate_def)
  next
    case nx: (Inr nx)
    define p2 where "p2 = clamp_limit cfg (defaults cfg (p0\<lparr>previous := pv, next := nx\<rparr>))"
    obtain p3 removed flag where inc: "include_fields p2 = (p3, removed, flag)"
      by (cases "include_fields p2") auto
    have sa: "sortAscending p3 = JUndefined"
      using include_fields_frame(6)[OF inc] assms by (simp add: p2_def prepared_frame)
    have p2': "clamp_limit cfg (defaults cfg (p0\<lparr>sortAscending := JBool False, previous := pv, next := nx\<rparr>))
        = p2\<lparr>sortAscending := JBool False\<rparr>"
      by (simp add: p2_def clamp_limit_def defaults_def Let_def split: option.splits)
    have inc': "include_fields (p2\<lparr>sortAscending := JBool False\<rparr>) = (p3\<lparr>sortAscending := JBool False\<rparr>, removed, flag)"
      by (simp add: include_fields_sortAscending inc)
    have lhs: "paginate cfg decode encode store (p0\<lparr>sortAscending := JBool False\<rparr>) =
        (case store (find_call p3) of
           Inl e \<Rightarrow> (Inl e, p3\<lparr>sortAscending := JBool False\<rparr>, [find_call p3])
         | Inr rs \<Rightarrow> (Inr (assemble encode p3 removed flag rs), p3\<lparr>sortAscending := JBool False\<rparr>, [find_call p3]))"
      using pv nx by (simp add: paginate_def p2' inc' find_call_undefined[OF sa] assemble_sortAscending Let_def
          cong: sum.case_cong)
    have rhs: "paginate cfg decode encode store p0 =
        (case store (find_call p3) of
           Inl e \<Rightarrow> (Inl e, p3, [find_call p3])
         | Inr rs \<Rightarrow> (Inr (assemble encode p3 removed flag rs), p3, [find_call p3]))"
      using pv nx inc by (simp add: paginate_def p2_def[symmetric] Let_def)
    show ?thesis
      by (simp add: lhs rhs split: sum.splits)
  qed
qed

theorem omitted_sortAscending_is_false_witness:
  "sortAscending no_params = JUndefined
   \<and> paginate sample_config sample_decode sample_encode sample_store
        (no_params\<lparr>sortAscending := JBool False\<rparr>) =
      (case paginate sample_config sample_decode sample_encode sample_store no_params of
         (out, p', calls) \<Rightarrow> (out, p'\<lparr>sortAscending := JBool False\<rparr>, calls))"
proof -
  have a: "sortAscending no_params = JUndefined" by (simp add: no_params_def)
  from a omitted_sortAscending_is_false[OF a] show ?thesis by (intro conjI)
qed

section \<open>Synthetic projection fields\<close>

text \<open>
  C7, as claimed: with a projection, \<open>_id\<close> is stripped from the results also when the
  projection merely omits it. It is not: with \<open>fields: {title: 1}\<close> the returned
  documents keep \<open>_id\<close>.
\<close>

theorem implicit_id_counterexample:
  "\<exists>resp p' calls.
      paginate sample_config sample_decode sample_encode sample_store only_title = (Inr resp, p', calls)
    \<and> fields_p only_title = Some [(''title'', JNum 1)]
    \<and> map (map fst) (results resp) = [[''_id'', ''title''], [''_id'', ''title'']]"
proof -
  have "paginate sample_config sample_decode sample_encode sample_store only_title =
     (Inr \<lparr>results = [[(''_id'', JNum 0), (''title'', JStr ''Post'')],
                      [(''_id'', JNum 1), (''title'', JStr ''Post'')]],
           resp_previous = Some ''n'', hasPrevious = False,
           resp_next = Some ''ni'', hasNext = True\<rparr>,
      only_title\<lparr>query := JObj [], limit := Some 2,
        fields_p := Some [(''title'', JNum 1), (''_id'', JNum 1)], paginatedField := Some ''_id''\<rparr>,
      [\<lparr>q_filter = And_of [Caller (JObj [])],
        q_fields = Some [(''title'', JNum 1), (''_id'', JNum 1)],
        q_sort = [(''_id'', 1)], q_limit = 3\<rparr>])"
    by code_simp
  then show ?thesis
    by (simp add: only_title_def)
qed

text \<open>
  C7, amended: let \<open>paginatedField\<close> be a top-level name: not empty, without \<open>.\<close> or
  \<open>[\<close>, and not a name every object inherits (such as \<open>constructor\<close>). Whenever the
  caller supplies a projection, the query's projection has \<open>_id: 1\<close> and a truthy entry
  for \<open>paginatedField\<close>. The fields recorded as synthetic are \<open>_id\<close> when the
  caller's projection has \<open>_id: 0\<close> (not when it omits \<open>_id\<close>), and
  \<open>paginatedField\<close> when it is not \<open>_id\<close> and the caller's projection has no truthy
  entry for it. Exactly these are stripped from every document of the results, and
  the \<open>previous\<close> and \<open>next\<close> cursors are the encoded \<open>paginatedField\<close> value (paired
  with \<open>_id\<close> when \<open>paginatedField\<close> is not \<open>_id\<close>) of the first and the last
  document of the page before stripping.
\<close>

theorem synthetic_fields:
  assumes run: "paginate cfg decode encode store p0 = (Inr resp, p', [q])"
      and fs: "fields_p p0 = Some fs"
      and rs: "store q = Inr rs"
      and top: "top_level (case paginatedField p0 of None \<Rightarrow> ''_id'' | Some f \<Rightarrow> f)"
  shows "let f = (case paginatedField p0 of None \<Rightarrow> ''_id'' | Some f \<Rightarrow> f);
             removed = (if map_of fs ''_id'' = Some (JNum 0) then [''_id''] else []) @
                       (if f \<noteq> ''_id'' \<and> \<not> truthy (get_prop fs f) then [f] else []);
             page = restore_order p' (drop_extra p' rs);
             cur = (\<lambda>d. encode (if f \<noteq> ''_id'' then JArr [get_prop d f, get_prop d ''_id'']
                                 else get_prop d f))
         in (\<exists>fs' v. q_fields q = Some fs' \<and> map_of fs' ''_id'' = Some (JNum 1)
                  \<and> map_of fs' f = Some v \<and> truthy v)
          \<and> results resp = map (omit removed) page
          \<and> (\<forall>d \<in> set (results resp). \<forall>k \<in> set removed. map_of d k = None)
          \<and> resp_previous resp = (case page of [] \<Rightarrow> None | d # ds \<Rightarrow> Some (cur d))
          \<and> resp_next resp = (case page of [] \<Rightarrow> None | d # ds \<Rightarrow> Some (cur (last page)))"
proof -
  from run obtain pv nx removed flag where
    inc: "include_fields (clamp_limit cfg (defaults cfg (p0\<lparr>previous := pv, next := nx\<rparr>))) = (p', removed, flag)"
    and q: "q = find_call p'"
    and out: "Inr resp = (case store q of Inl e \<Rightarrow> Inl e | Inr rs \<Rightarrow> Inr (assemble encode p' removed flag rs))"
    by (rule paginate_issued)
  define p2 where "p2 = clamp_limit cfg (defaults cfg (p0\<lparr>previous := pv, next := nx\<rparr>))"
  define f where "f = (case paginatedField p0 of None \<Rightarrow> ''_id'' | Some f \<Rightarrow> f)"
  define rem where "rem = (if map_of fs ''_id'' = Some (JNum 0) then [''_id''] else []) @
                       (if f \<noteq> ''_id'' \<and> \<not> truthy (get_prop fs f) then [f] else [])"
  define page where "page = restore_order p' (drop_extra p' rs)"
  define cur where "cur = (\<lambda>d. encode (if f \<noteq> ''_id'' then JArr [get_prop d f, get_prop d ''_id'']
                                 else get_prop d f))"
  have own: "js_get al f = get_prop al f" for al
    using top by (simp add: f_def top_level_own)
  have f2: "field_of p2 = f" by (simp add: p2_def f_def field_of_def prepared_frame)
  have f': "field_of p' = f" using include_fields_derived(2)[OF inc[folded p2_def]] f2 by simp
  have fs2: "fields_p p2 = Some fs" using fs by (simp add: p2_def prepared_frame)
  note inc2 = inc[folded p2_def, unfolded include_fields_Some[OF fs2] Let_def f2 own]
  have removed: "removed = rem" and flag: "flag = (rem \<noteq> [])"
    using inc2 by (auto simp: rem_def)
  have qf: "q_fields q = Some (if f \<noteq> ''_id'' \<and> \<not> truthy (get_prop fs f)
                 then AList.update f (JNum 1) (AList.update ''_id'' (JNum 1) fs)
                 else AList.update ''_id'' (JNum 1) fs)"
    using inc2 by (auto simp: q find_call_def)
  have proj: "\<exists>fs' v. q_fields q = Some fs' \<and> map_of fs' ''_id'' = Some (JNum 1)
      \<and> map_of fs' f = Some v \<and> truthy v"
  proof (cases "f \<noteq> ''_id'' \<and> \<not> truthy (get_prop fs f)")
    case True
    then show ?thesis by (simp add: qf update_conv')
  next
    case False
    show ?thesis
    proof (cases "f = ''_id''")
      case True
      then show ?thesis by (simp add: qf update_conv')
    next
      case other: False
      then have "truthy (get_prop fs f)" using False by simp
      then obtain v where "map_of fs f = Some v" "truthy v"
        by (cases "map_of fs f") (simp_all add: get_prop_def)
      then show ?thesis using other False by (simp add: qf update_conv')
    qed
  qed
  have resp: "resp = assemble encode p' removed flag rs" using out rs by simp
  have res: "results resp = map (omit rem) page"
    by (auto simp: resp assemble_def Let_def removed flag page_def map_omit_Nil)
  have stripped: "\<forall>d \<in> set (results resp). \<forall>k \<in> set rem. map_of d k = None"
    by (auto simp: res omit_absent)
  have cur: "cursor_of encode p' = cur"
    by (rule ext) (simp add: cursor_of_unfold f' cur_def)
  have prev: "resp_previous resp = (case page of [] \<Rightarrow> None | d # ds \<Rightarrow> Some (cur d))"
    by (simp add: resp assemble_def Let_def page_def cur cong: list.case_cong)
  have nxt: "resp_next resp = (case page of [] \<Rightarrow> None | d # ds \<Rightarrow> Some (cur (last page)))"
    by (simp add: resp assemble_def Let_def page_def cur cong: list.case_cong)
  from proj res stripped prev[unfolded cur_def] nxt[unfolded cur_def] show ?thesis
    unfolding Let_def f_def[symmetric] rem_def[symmetric] page_def[symmetric]
    by (intro conjI)
qed

theorem synthetic_fields_witness:
  "\<exists>resp p' q rs.
      paginate sample_config sample_decode sample_encode sample_store title_by_date = (Inr resp, p', [q])
    \<and> fields_p title_by_date = Some [(''title'', JNum 1), (''_id'', JNum 0)]
    \<and> top_level (case paginatedField title_by_date of None \<Rightarrow> ''_id'' | Some f \<Rightarrow> f)
    \<and> sample_store q = Inr rs
    \<and> q_fields q = Some [(''title'', JNum 1), (''_id'', JNum 1), (''date'', JNum 1)]
    \<and> results resp = map (omit [''_id'', ''date'']) (restore_order p' (drop_extra p' rs))
    \<and> results resp = [[(''title'', JStr ''Post'')], [(''title'', JStr ''Post'')]]"
proof -
  note run = run_title_by_date and rs = answer_title_by_date
  have fs: "fields_p title_by_date = Some [(''title'', JNum 1), (''_id'', JNum 0)]"
    by (simp add: title_by_date_def)
  have top: "top_level (case paginatedField title_by_date of None \<Rightarrow> ''_id'' | Some f \<Rightarrow> f)"
    by (simp add: title_by_date_def by_date_def no_params_def top_level_samples)
  from synthetic_fields[OF run fs rs top] have
    "results \<lparr>results = [[(''title'', JStr ''Post'')], [(''title'', JStr ''Post'')]],
           resp_previous = Some ''f-'', hasPrevious = False,
           resp_next = Some ''f-iii'', hasNext = True\<rparr>
       = map (omit [''_id'', ''date''])
          (restore_order (by_date\<lparr>query := JObj [], limit := Some 2,
        fields_p := Some [(''title'', JNum 1), (''_id'', JNum 1), (''date'', JNum 1)]\<rparr>)
      (drop_extra (by_date\<lparr>query := JObj [], limit := Some 2,
        fields_p := Some [(''title'', JNum 1), (''_id'', JNum 1), (''date'', JNum 1)]\<rparr>)
         [[(''_id'', JNum 0), (''date'', JNum 1), (''title'', JStr ''Post'')],
          [(''_id'', JNum 3), (''date'', JNum 1), (''title'', JStr ''Post'')],
          [(''_id'', JNum 1), (''date'', JNum 2), (''title'', JStr ''Post'')]]))"
    unfolding Let_def by (simp add: title_by_date_def by_date_def no_params_def get_prop_def)
  with run rs fs top show ?thesis
    by (simp add: q_title_by_date_def)
qed

section \<open>Both cursors\<close>

text \<open>
  C8, as claimed: with both \<open>next\<close> and \<open>previous\<close> supplied, \<open>paginate\<close> behaves as
  if only \<open>next\<close> had been supplied. It does not: with \<open>sortAscending: true\<close> the call
  with both cursors sorts \<open>_id\<close> by -1 and the call with \<open>next\<close> alone by 1, and the
  pages differ.
\<close>

theorem both_cursors_counterexample:
  "map q_sort (snd (snd (paginate sample_config sample_decode sample_encode sample_store after_1_before_3)))
     = [[(''_id'', - 1)]]
   \<and> map q_sort (snd (snd (paginate sample_config sample_decode sample_encode sample_store after_1)))
     = [[(''_id'', 1)]]
   \<and> fst (paginate sample_config sample_decode sample_encode sample_store after_1_before_3)
     \<noteq> fst (paginate sample_config sample_decode sample_encode sample_store after_1)"
  by code_simp

text \<open>
  C8, amended: let \<open>next\<close> and \<open>previous\<close> both be supplied and each decode to a
  truthy value, and let \<open>paginatedField\<close> be a top-level name. Then the range filter is
  built from the decoded \<open>next\<close> alone, but the direction follows \<open>previous\<close>: the
  operator is \<open>$lt\<close> and the sort direction -1 when \<open>sortAscending\<close> is truthy, and
  \<open>$gt\<close> and 1 otherwise; the page is the store's answer (without the extra document)
  reversed, less the synthetic fields; and \<open>hasPrevious\<close> and \<open>hasNext\<close> are both
  true.
\<close>

theorem both_cursors:
  assumes run: "paginate cfg decode encode store p0 = (Inr resp, p', [q])"
      and nx: "truthy (next p0)" "decode (next p0) = Inr n" "truthy n"
      and pv: "truthy (previous p0)" "decode (previous p0) = Inr v" "truthy v"
      and rs: "store q = Inr rs"
      and top: "top_level (case paginatedField p0 of None \<Rightarrow> ''_id'' | Some f \<Rightarrow> f)"
  shows "let f = (case paginatedField p0 of None \<Rightarrow> ''_id'' | Some f \<Rightarrow> f);
             op = (if truthy (sortAscending p0) then ''$lt'' else ''$gt'');
             dir = (if truthy (sortAscending p0) then - 1 else 1);
             own = (if query p0 = JUndefined then JObj [] else query p0)
         in q_filter q = And_of [Caller own,
                if f \<noteq> ''_id''
                then Or_of [Fields [(f, op, js_index n 0)],
                            Fields [(f, ''$eq'', js_index n 0), (''_id'', op, js_index n 1)]]
                else Fields [(f, op, n)]]
          \<and> q_sort q = (if f \<noteq> ''_id'' then [(f, dir), (''_id'', dir)] else [(f, dir)])
          \<and> (\<exists>removed. results resp =
                map (omit removed) (rev (if int (length rs) > limit_of p' then butlast rs else rs)))
          \<and> hasPrevious resp \<and> hasNext resp"
proof -
  from run obtain removed flag where
    out: "Inr resp = (case store q of Inl e \<Rightarrow> Inl e | Inr rs \<Rightarrow> Inr (assemble encode p' removed flag rs))"
    and fl: "flag \<or> removed = []"
    using include_fields_flag by (elim paginate_issued) blast
  have resp: "resp = assemble encode p' removed flag rs" using out rs by simp
  note fr = paginate_frame[OF run]
  have nx': "next p' = n" using fr(2) nx by (simp add: decode_if_given_def)
  have pv': "previous p' = v" using fr(1) pv by (simp add: decode_if_given_def)
  have asc: "truthy (sortAsc p') = (\<not> truthy (sortAscending p0))"
    using pv pv' fr(3) by (simp add: truthy_sortAsc)
  have res: "results resp =
      map (omit removed) (rev (if int (length rs) > limit_of p' then butlast rs else rs))"
    using fl pv pv'
    by (auto simp: resp assemble_def Let_def restore_order_def drop_extra_def hasMore_def map_omit_Nil)
  have flags: "hasPrevious resp" "hasNext resp"
    using nx nx' pv pv' by (simp_all add: resp assemble_def Let_def)
  have flt: "q_filter q = And_of [Caller (if query p0 = JUndefined then JObj [] else query p0),
       cursor_filter p' n]"
    using nx nx' fr(5) by (simp add: fr(6) find_call_def queries_def)
  have srt: "q_sort q = sort_spec p'" by (simp add: fr(6) find_call_def)
  have op: "comparisonOp p' = (if truthy (sortAscending p0) then ''$lt'' else ''$gt'')"
    and dir: "sortDir p' = (if truthy (sortAscending p0) then - 1 else 1)"
    using asc by (simp_all add: comparisonOp_def sortDir_def)
  have "q_filter q = And_of [Caller (if query p0 = JUndefined then JObj [] else query p0),
                if field_of p' \<noteq> ''_id''
                then Or_of [Fields [(field_of p', comparisonOp p', js_index n 0)],
                            Fields [(field_of p', ''$eq'', js_index n 0),
                                    (''_id'', comparisonOp p', js_index n 1)]]
                else Fields [(field_of p', comparisonOp p', n)]]"
    by (simp add: flt cursor_filter_def shouldSecondarySortOnId_def)
  moreover have "q_sort q = (if field_of p' \<noteq> ''_id''
       then [(field_of p', sortDir p'), (''_id'', sortDir p')] else [(field_of p', sortDir p')])"
    by (simp add: srt sort_spec_def shouldSecondarySortOnId_def)
  ultimately have "q_filter q = And_of [Caller (if query p0 = JUndefined then JObj [] else query p0),
                if (case paginatedField p0 of None \<Rightarrow> ''_id'' | Some f \<Rightarrow> f) \<noteq> ''_id''
                then Or_of [Fields [(case paginatedField p0 of None \<Rightarrow> ''_id'' | Some f \<Rightarrow> f,
                              if truthy (sortAscending p0) then ''$lt'' else ''$gt'', js_index n 0)],
                            Fields [(case paginatedField p0 of None \<Rightarrow> ''_id'' | Some f \<Rightarrow> f,
                              ''$eq'', js_index n 0),
                              (''_id'', if truthy (sortAscending p0) then ''$lt'' else ''$gt'',
                               js_index n 1)]]
                else Fields [(case paginatedField p0 of None \<Rightarrow> ''_id'' | Some f \<Rightarrow> f,
                              if truthy (sortAscending p0) then ''$lt'' else ''$gt'', n)]]"
    and "q_sort q = (if (case paginatedField p0 of None \<Rightarrow> ''_id'' | Some f \<Rightarrow> f) \<noteq> ''_id''
       then [(case paginatedField p0 of None \<Rightarrow> ''_id'' | Some f \<Rightarrow> f,
              if truthy (sortAscending p0) then - 1 else 1),
             (''_id'', if truthy (sortAscending p0) then - 1 else 1)]
       else [(case paginatedField p0 of None \<Rightarrow> ''_id'' | Some f \<Rightarrow> f,
              if truthy (sortAscending p0) then - 1 else 1)])"
    unfolding op dir fr(4) by simp_all
  moreover have "\<exists>removed. results resp =
      map (omit removed) (rev (if int (length rs) > limit_of p' then butlast rs else rs))"
    using res by blast
  ultimately show ?thesis
    unfolding Let_def using flags by (intro conjI)
qed

theorem both_cursors_witness:
  "truthy (next after_1_before_3) \<and> sample_decode (next after_1_before_3) = Inr (JNum 1)
   \<and> truthy (previous after_1_before_3) \<and> sample_decode (previous after_1_before_3) = Inr (JNum 3)
   \<and> truthy (sortAscending after_1_before_3)
   \<and> top_level (case paginatedField after_1_before_3 of None \<Rightarrow> ''_id'' | Some f \<Rightarrow> f)
   \<and> (\<exists>resp p' q rs.
      paginate sample_config sample_decode sample_encode sample_store after_1_before_3 = (Inr resp, p', [q])
    \<and> sample_store q = Inr rs
    \<and> q_filter q = And_of [Caller (JObj []), Fields [(''_id'', ''$lt'', JNum 1)]]
    \<and> q_sort q = [(''_id'', - 1)]
    \<and> hasPrevious resp \<and> hasNext resp)"
proof -
  note run = run_after_1_before_3 and rs = answer_after_1_before_3
  have nx: "truthy (next after_1_before_3)" "sample_decode (next after_1_before_3) = Inr (JNum 1)"
      "truthy (JNum 1)"
    by (simp_all add: after_1_before_3_def after_1_def no_params_def sample_decode_def)
  have pv: "truthy (previous after_1_before_3)"
      "sample_decode (previous after_1_before_3) = Inr (JNum 3)" "truthy (JNum 3)"
    by (simp_all add: after_1_before_3_def after_1_def no_params_def sample_decode_def)
  have sa: "truthy (sortAscending after_1_before_3)"
    by (simp add: after_1_before_3_def after_1_def no_params_def)
  have top: "top_level (case paginatedField after_1_before_3 of None \<Rightarrow> ''_id'' | Some f \<Rightarrow> f)"
    by (simp add: after_1_before_3_def after_1_def no_params_def top_level_samples)
  from both_cursors[OF run nx pv rs top] have
    "q_filter q_after_1_before_3 = And_of [Caller (JObj []), Fields [(''_id'', ''$lt'', JNum 1)]]
     \<and> q_sort q_after_1_before_3 = [(''_id'', - 1)]
     \<and> hasPrevious \<lparr>results = [post 0 1], resp_previous = Some ''n'', hasPrevious = True,
           resp_next = Some ''n'', hasNext = True\<rparr>
     \<and> hasNext \<lparr>results = [post 0 1], resp_previous = Some ''n'', hasPrevious = True,
           resp_next = Some ''n'', hasNext = True\<rparr>"
    unfolding Let_def by (simp add: after_1_before_3_def after_1_def no_params_def)
  with run rs nx(1,2) pv(1,2) sa top show ?thesis
    by blast
qed

section \<open>Decode failures\<close>

text \<open>
  C9. If the supplied \<open>previous\<close> token fails to decode, or \<open>previous\<close> is absent or
  decodes and the supplied \<open>next\<close> token fails to decode, then \<open>paginate\<close> fails with
  the decoder's error and no query has been issued to the store.
\<close>

theorem decode_failure_no_query:
  assumes "(truthy (previous p0) \<and> decode (previous p0) = Inl e) \<or>
           ((\<not> truthy (previous p0) \<or> (\<exists>v. decode (previous p0) = Inr v))
             \<and> truthy (next p0) \<and> decode (next p0) = Inl e)"
  shows "\<exists>p'. paginate cfg decode encode store p0 = (Inl e, p', [])"
  using assms
  by (auto simp: paginate_def decode_if_given_def Let_def split: sum.splits)

theorem decode_failure_no_query_witness:
  "truthy (next garbage_next) \<and> sample_decode (next garbage_next) = Inl ''InvalidCursor''
   \<and> (\<exists>p'. paginate sample_config sample_decode sample_encode sample_store garbage_next
          = (Inl ''InvalidCursor'', p', []))"
proof -
  have a: "truthy (next garbage_next)" by (simp add: garbage_next_def no_params_def)
  have b: "sample_decode (next garbage_next) = Inl ''InvalidCursor''"
    by (simp add: garbage_next_def no_params_def sample_decode_def)
  have c: "\<not> truthy (previous garbage_next)" by (simp add: garbage_next_def no_params_def)
  from a b c decode_failure_no_query[of garbage_next sample_decode "''InvalidCursor''"
      sample_config sample_encode sample_store]
  show ?thesis by blast
qed

section \<open>The params object after the call\<close>






section \<open>Facts about the record store\<close>

subsection \<open>Insertion sort by a strict order\<close>

lemma set_insert_by: "set (insert_by lt x ys) = insert x (set ys)"
  by (induction ys) auto

lemma set_sort_by: "set (sort_by lt xs) = set xs"
  by (induction xs) (simp_all add: sort_by_def set_insert_by)

lemma sort_by_Cons: "sort_by lt (x # xs) = insert_by lt x (sort_by lt xs)"
  by (simp add: sort_by_def)

lemma sorted_insert_by:
  assumes "\<And>a b c. lt a b \<Longrightarrow> lt b c \<Longrightarrow> lt a c"
      and "\<forall>y \<in> set ys. lt x y \<or> lt y x"
      and "sorted_wrt lt ys"
  shows "sorted_wrt lt (insert_by lt x ys)"
  using assms(2,3)
proof (induction ys)
  case Nil
  then show ?case by simp
next
  case (Cons y ys)
  show ?case
  proof (cases "lt y x")
    case True
    then show ?thesis using Cons by (auto simp: set_insert_by)
  next
    case False
    then have xy: "lt x y" using Cons.prems(1) by auto
    have "lt x z" if "z \<in> set ys" for z
      using that Cons.prems(2) xy assms(1) by auto
    then show ?thesis using False xy Cons.prems(2) by auto
  qed
qed

lemma sorted_sort_by:
  assumes "\<And>a b c. lt a b \<Longrightarrow> lt b c \<Longrightarrow> lt a c"
      and "distinct xs"
      and "\<forall>a \<in> set xs. \<forall>b \<in> set xs. a \<noteq> b \<longrightarrow> lt a b \<or> lt b a"
  shows "sorted_wrt lt (sort_by lt xs)"
  using assms(2,3)
proof (induction xs)
  case Nil
  then show ?case by (simp add: sort_by_def)
next
  case (Cons x xs)
  have "sorted_wrt lt (sort_by lt xs)" using Cons by auto
  moreover have "\<forall>y \<in> set (sort_by lt xs). lt x y \<or> lt y x"
    using Cons.prems by (auto simp: set_sort_by)
  ultimately show ?case
    unfolding sort_by_Cons using sorted_insert_by[where lt=lt and x=x and ys="sort_by lt xs"] assms(1) by blast
qed

lemma sorted_wrt_unique:
  assumes irrefl: "\<And>a. \<not> lt a a"
      and trans: "\<And>a b c. lt a b \<Longrightarrow> lt b c \<Longrightarrow> lt a c"
  shows "sorted_wrt lt xs \<Longrightarrow> sorted_wrt lt ys \<Longrightarrow> set xs = set ys \<Longrightarrow> xs = ys"
proof (induction xs arbitrary: ys)
  case Nil
  then show ?case by simp
next
  case (Cons x xs)
  then obtain y ys' where ys: "ys = y # ys'" by (cases ys) auto
  have x_min: "\<forall>z \<in> set xs. lt x z" and y_min: "\<forall>z \<in> set ys'. lt y z"
    using Cons.prems ys by auto
  have xy: "x = y"
  proof (rule ccontr)
    assume ne: "x \<noteq> y"
    have "x \<in> set ys'" using Cons.prems(3) ys ne by auto
    then have "lt y x" using y_min by auto
    moreover have "y \<in> set xs" using Cons.prems(3) ys ne by auto
    then have "lt x y" using x_min by auto
    ultimately show False using irrefl trans by blast
  qed
  have "x \<notin> set xs" "y \<notin> set ys'" using x_min y_min irrefl by auto
  then have "set xs = set ys'" using Cons.prems(3) ys xy by auto
  moreover have "sorted_wrt lt xs" "sorted_wrt lt ys'" using Cons.prems ys by auto
  ultimately have "xs = ys'" using Cons.IH by blast
  then show ?case using xy ys by simp
qed

lemma sort_by_filter:
  assumes irrefl: "\<And>a. \<not> lt a a"
      and trans: "\<And>a b c. lt a b \<Longrightarrow> lt b c \<Longrightarrow> lt a c"
      and "distinct xs"
      and total: "\<forall>a \<in> set xs. \<forall>b \<in> set xs. a \<noteq> b \<longrightarrow> lt a b \<or> lt b a"
  shows "sort_by lt (filter P xs) = filter P (sort_by lt xs)"
proof (rule sorted_wrt_unique[of lt])
  show "sorted_wrt lt (sort_by lt (filter P xs))"
    using assms(3) total sorted_sort_by[where lt=lt and xs="filter P xs"] trans by auto
  have "sorted_wrt lt (sort_by lt xs)"
    using assms(3) total sorted_sort_by[where lt=lt and xs=xs] trans by blast
  then show "sorted_wrt lt (filter P (sort_by lt xs))"
    by (rule sorted_wrt_filter)
  show "set (sort_by lt (filter P xs)) = set (filter P (sort_by lt xs))"
    by (simp add: set_sort_by)
qed (use irrefl trans in blast)+

lemma sort_by_converse:
  assumes irrefl: "\<And>a. \<not> lt a a"
      and trans: "\<And>a b c. lt a b \<Longrightarrow> lt b c \<Longrightarrow> lt a c"
      and "distinct xs"
      and total: "\<forall>a \<in> set xs. \<forall>b \<in> set xs. a \<noteq> b \<longrightarrow> lt a b \<or> lt b a"
  shows "sort_by (\<lambda>a b. lt b a) xs = rev (sort_by lt xs)"
proof (rule sorted_wrt_unique[of "\<lambda>a b. lt b a"])
  show "sorted_wrt (\<lambda>a b. lt b a) (sort_by (\<lambda>a b. lt b a) xs)"
  proof (rule sorted_sort_by)
    show "lt c a" if "lt b a" "lt c b" for a b c using that trans by blast
    show "distinct xs" by (rule assms(3))
    show "\<forall>a\<in>set xs. \<forall>b\<in>set xs. a \<noteq> b \<longrightarrow> lt b a \<or> lt a b" using total by blast
  qed
  have "sorted_wrt lt (sort_by lt xs)"
    using assms(3) total sorted_sort_by[where lt=lt and xs=xs] trans by blast
  then show "sorted_wrt (\<lambda>a b. lt b a) (rev (sort_by lt xs))"
    by (simp add: sorted_wrt_rev)
  show "set (sort_by (\<lambda>a b. lt b a) xs) = set (rev (sort_by lt xs))"
    by (simp add: set_sort_by)
qed (use irrefl trans in blast)+

subsection \<open>Pages of a sorted list\<close>

lemma filter_above_suffix:
  assumes trans: "\<And>a b c. lt a b \<Longrightarrow> lt b c \<Longrightarrow> lt a c"
  shows "sorted_wrt lt S \<Longrightarrow> \<exists>A. S = A @ filter (lt e) S"
proof (induction S)
  case Nil
  then show ?case by simp
next
  case (Cons x S)
  show ?case
  proof (cases "lt e x")
    case True
    then have "\<forall>y \<in> set S. lt e y" using Cons.prems trans by auto
    then have "filter (lt e) (x # S) = x # S" using True by simp
    then show ?thesis by (metis append_Nil)
  next
    case False
    from Cons obtain A where "S = A @ filter (lt e) S" by auto
    then have "x # S = (x # A) @ filter (lt e) (x # S)" using False by simp
    then show ?thesis by blast
  qed
qed

lemma backward_page:
  assumes irrefl: "\<And>a. \<not> lt a a"
      and trans: "\<And>a b c. lt a b \<Longrightarrow> lt b c \<Longrightarrow> lt a c"
      and sorted: "sorted_wrt lt S"
      and suffix: "S = A @ F"
      and page: "P = take n F" "P \<noteq> []"
      and following: "N = take n (filter (lt (last P)) S)" "N \<noteq> []"
  shows "rev (take n (rev (filter (\<lambda>x. lt x (hd N)) S))) = P"
proof -
  define G where "G = drop n F"
  have F: "F = P @ G" by (simp add: page(1) G_def)
  have S: "S = A @ P @ G" using suffix F by simp
  define e where "e = last P"
  have eP: "e \<in> set P" using page(2) by (simp add: e_def)
  have asym: "\<not> lt b a" if "lt a b" for a b using that irrefl trans by blast
  have before: "\<not> lt e a" if "a \<in> set A \<union> set P" for a
  proof -
    obtain Q where P: "P = Q @ [e]" using page(2) e_def by (metis append_butlast_last_id)
    have "a = e \<or> lt a e" using that sorted unfolding S P by (auto simp: sorted_wrt_append)
    then show ?thesis using irrefl asym by blast
  qed
  have after: "lt e g" if "g \<in> set G" for g
    using that eP sorted unfolding S by (auto simp: sorted_wrt_append)
  have flt: "filter (lt e) S = G"
    unfolding S using before after by (auto simp: filter_empty_conv filter_id_conv)
  have N: "N = take n G" using following(1) flt by (simp add: e_def)
  then have Gne: "G \<noteq> []" using following(2) by auto
  then have lenP: "length P = n"
    unfolding page(1) G_def by auto
  obtain g G' where G: "G = g # G'" using Gne by (cases G) auto
  have n0: "n \<noteq> 0" using following(2) N by auto
  then have hd: "hd N = g" using N G by (cases n) auto
  have below: "lt a g" if "a \<in> set A \<union> set P" for a
    using that sorted unfolding S G by (auto simp: sorted_wrt_append)
  have notbelow: "\<not> lt x g" if "x \<in> set G" for x
  proof -
    have "x = g \<or> lt g x" using that sorted unfolding S G by (auto simp: sorted_wrt_append)
    then show ?thesis using irrefl asym by blast
  qed
  have "filter (\<lambda>x. lt x g) S = A @ P"
    unfolding S using below notbelow by (auto simp: filter_empty_conv filter_id_conv)
  then show ?thesis using lenP by (simp add: hd)
qed

subsection \<open>The order of a sort specification\<close>

lemma doc_less_irrefl: "\<not> doc_less rank spec a a"
  by (induction spec) (auto simp: Let_def)

lemma doc_less_trans:
  "doc_less rank spec a b \<Longrightarrow> doc_less rank spec b c \<Longrightarrow> doc_less rank spec a c"
  by (induction spec) (auto simp: Let_def split: if_splits)

lemma doc_less_total:
  assumes "rank (get_prop a ''_id'') \<noteq> rank (get_prop b ''_id'')"
      and "''_id'' \<in> fst ` set spec"
  shows "doc_less rank spec a b \<or> doc_less rank spec b a"
  using assms(2)
proof (induction spec)
  case Nil
  then show ?case by simp
next
  case (Cons fd spec)
  obtain f dir where fd: "fd = (f, dir)" by (cases fd)
  show ?case
  proof (cases "rank (get_prop a f) = rank (get_prop b f)")
    case True
    then have "f \<noteq> ''_id''" using assms(1) by auto
    then have "''_id'' \<in> fst ` set spec" using Cons.prems fd by auto
    then show ?thesis using Cons.IH True fd by (simp add: Let_def)
  next
    case False
    then show ?thesis using fd by (auto simp: Let_def)
  qed
qed

lemma sort_spec_shape:
  "sort_spec p = map (\<lambda>f. (f, sortDir p))
     (if shouldSecondarySortOnId p then [field_of p, ''_id''] else [field_of p])"
  by (simp add: sort_spec_def)

lemma sort_spec_has_id: "''_id'' \<in> fst ` set (sort_spec p)"
  by (auto simp: sort_spec_def shouldSecondarySortOnId_def)

lemma doc_less_flip:
  "doc_less rank (map (\<lambda>f. (f, - 1)) fs) a b = doc_less rank (map (\<lambda>f. (f, 1)) fs) b a"
  by (induction fs) (auto simp: Let_def)

subsection \<open>The range filter as a comparison with the cursor's position\<close>

lemma matches_cursor_filter:
  "matches qsem rank (cursor_filter p c) d = doc_less rank (sort_spec p) (cursor_doc p c) d"
  by (auto simp: cursor_filter_def cursor_doc_def sort_spec_def comparisonOp_def sortDir_def
      compare_op_def get_prop_def shouldSecondarySortOnId_def Let_def)

lemma js_index_pair: "js_index (JArr [x, y]) 0 = x" "js_index (JArr [x, y]) 1 = y"
  by simp_all

lemma doc_less_keys:
  assumes "\<And>f. f \<in> fst ` set spec \<Longrightarrow> get_prop a f = get_prop a' f"
      and "\<And>f. f \<in> fst ` set spec \<Longrightarrow> get_prop b f = get_prop b' f"
  shows "doc_less rank spec a b = doc_less rank spec a' b'"
  using assms by (induction spec) (auto simp: Let_def)

lemma cursor_doc_of_value:
  "doc_less rank (sort_spec p) (cursor_doc p (cursor_value p e)) d = doc_less rank (sort_spec p) e d"
  by (rule doc_less_keys)
     (auto simp: cursor_doc_def cursor_value_def sort_spec_def get_prop_def
        shouldSecondarySortOnId_def split: if_splits)

subsection \<open>The store's projection keeps the sort keys\<close>

lemma map_of_filter_key:
  "map_of (filter (\<lambda>kv. P (fst kv)) d) k = (if P k then map_of d k else None)"
  by (induction d) auto

lemma project_keeps:
  assumes "proj = None \<or> (\<exists>fs. proj = Some fs \<and> truthy (get_prop fs k))"
  shows "get_prop (project proj d) k = get_prop d k"
  using assms
  by (auto simp: project_def get_prop_def map_of_filter_key[where P="\<lambda>k. truthy (case map_of fs k of None \<Rightarrow> JUndefined | Some v \<Rightarrow> v) \<or> k = ''_id'' \<and> map_of fs ''_id'' = None" for fs]
     map_of_filter_key[where P="\<lambda>k. map_of fs k = None \<or> truthy (case map_of fs k of None \<Rightarrow> JUndefined | Some v \<Rightarrow> v)" for fs]
      split: option.splits)

subsection \<open>The page a call returns from the store\<close>

lemma include_fields_projection:
  assumes "include_fields p = (p', removed, flag)" and top: "top_level (field_of p)"
  shows "fields_p p' = None \<or>
         (\<exists>fs. fields_p p' = Some fs \<and> truthy (get_prop fs ''_id'') \<and> truthy (get_prop fs (field_of p)))"
proof (cases "fields_p p")
  case None
  then show ?thesis using assms by (auto simp: include_fields_def)
next
  case (Some fs)
  define fs1 where "fs1 = AList.update ''_id'' (JNum 1) fs"
  have id1: "get_prop fs1 ''_id'' = JNum 1" by (simp add: fs1_def get_prop_def update_conv')
  have own: "js_get fs (field_of p) = get_prop fs (field_of p)"
    using top by (rule top_level_own)
  show ?thesis
  proof (cases "field_of p \<noteq> ''_id'' \<and> \<not> truthy (js_get fs (field_of p))")
    case True
    then have "fields_p p' = Some (AList.update (field_of p) (JNum 1) fs1)"
      using assms unfolding include_fields_Some[OF Some] by (auto simp: Let_def fs1_def)
    moreover have "get_prop (AList.update (field_of p) (JNum 1) fs1) ''_id'' = JNum 1"
      using True id1 by (simp add: get_prop_def update_conv')
    moreover have "get_prop (AList.update (field_of p) (JNum 1) fs1) (field_of p) = JNum 1"
      by (simp add: get_prop_def update_conv')
    ultimately show ?thesis by simp
  next
    case False
    then have "fields_p p' = Some fs1"
      using assms unfolding include_fields_Some[OF Some] by (auto simp: Let_def fs1_def)
    moreover have "truthy (get_prop fs1 (field_of p))"
      using False id1 own by (cases "field_of p = ''_id''") (auto simp: fs1_def get_prop_def update_conv')
    ultimately show ?thesis using id1 by simp
  qed
qed

lemma include_fields_same:
  assumes "include_fields p1 = (a1, r1, f1)" "include_fields p2 = (a2, r2, f2)"
      and "fields_p p1 = fields_p p2" "field_of p1 = field_of p2"
  shows "r1 = r2" "f1 = f2" "fields_p a1 = fields_p a2"
  using assms
  by (auto simp: include_fields_def Let_def split: option.splits if_splits)

lemma cursor_value_project:
  assumes inc: "include_fields p = (p', removed, flag)" and top: "top_level (field_of p)"
  shows "cursor_value p' (project (fields_p p') d) = cursor_value p' d"
proof -
  have f: "field_of p' = field_of p" by (rule include_fields_derived(2)[OF inc])
  have "get_prop (project (fields_p p') d) ''_id'' = get_prop d ''_id''"
    using include_fields_projection[OF inc top] by (intro project_keeps) auto
  moreover have "get_prop (project (fields_p p') d) (field_of p') = get_prop d (field_of p')"
    using include_fields_projection[OF inc top] f by (intro project_keeps) auto
  ultimately show ?thesis by (simp add: cursor_value_def)
qed

lemma limit_to_page: "1 \<le> L \<Longrightarrow> limit_to (L + 1) X = take (Suc (nat L)) X"
  by (auto simp: limit_to_def nat_add_distrib)

lemma drop_extra_page:
  assumes "limit_of p = L" "1 \<le> L"
  shows "drop_extra p (map g (limit_to (L + 1) X)) = map g (take (nat L) X)"
proof (cases "nat L < length X")
  case True
  then have "hasMore p (map g (limit_to (L + 1) X))"
    using assms by (simp add: hasMore_def limit_to_page)
  moreover have "butlast (take (Suc (nat L)) X) = take (nat L) X"
    using True by (simp add: butlast_take)
  ultimately show ?thesis
    using assms by (simp add: drop_extra_def limit_to_page map_butlast[symmetric])
next
  case False
  then have "\<not> hasMore p (map g (limit_to (L + 1) X))"
    using assms by (simp add: hasMore_def limit_to_page)
  then show ?thesis
    using assms False by (simp add: drop_extra_def limit_to_page)
qed

lemma restore_order_map: "restore_order p (map g xs) = map g (restore_order p xs)"
  by (simp add: restore_order_def rev_map)

lemma paginate_mongo:
  assumes "decode_if_given decode (previous p0) = Inr pv"
      and "decode_if_given decode (next p0) = Inr nx"
      and "include_fields (clamp_limit cfg (defaults cfg (p0\<lparr>previous := pv, next := nx\<rparr>))) = (p', removed, flag)"
  shows "paginate cfg decode encode (mongo_find qsem rank coll) p0 =
           (Inr (assemble encode p' removed flag
                  (map (project (fields_p p'))
                     (limit_to (limit_of p' + 1)
                        (sort_by (doc_less rank (sort_spec p'))
                           (filter (matches qsem rank (And_of (queries p'))) coll))))),
            p', [find_call p'])"
  using assms by (simp add: paginate_def Let_def mongo_find_def find_call_def)

lemma limit_of_after:
  assumes "include_fields (clamp_limit cfg (defaults cfg p)) = (p', removed, flag)"
  shows "limit_of p' = (let l0 = (case limit p of None \<Rightarrow> DEFAULT_LIMIT cfg | Some l \<Rightarrow> l);
                            l1 = (if l0 < 1 then 1 else l0)
                        in if l1 > MAX_LIMIT cfg then MAX_LIMIT cfg else l1)"
  using include_fields_frame(2)[OF assms] by (simp add: limit_of_def limit_after)

lemma mongo_page:
  assumes run: "paginate cfg decode encode (mongo_find qsem rank coll) p0 = (Inr r, p', calls)"
      and cfg: "1 \<le> MAX_LIMIT cfg"
      and page: "page = restore_order p' (take (nat (limit_of p'))
          (sort_by (doc_less rank (sort_spec p'))
             (filter (matches qsem rank (And_of (queries p'))) coll)))"
      and top: "top_level (field_of p')"
  obtains removed flag where
    "include_fields (clamp_limit cfg (defaults cfg (p0\<lparr>previous := previous p', next := next p'\<rparr>)))
       = (p', removed, flag)"
    "results r = (if flag then map (omit removed) (map (project (fields_p p')) page)
                  else map (project (fields_p p')) page)"
    "resp_previous r = (case page of [] \<Rightarrow> None | d # ds \<Rightarrow> Some (encode (cursor_value p' d)))"
    "resp_next r = (case page of [] \<Rightarrow> None | d # ds \<Rightarrow> Some (encode (cursor_value p' (last page))))"
proof -
  from run obtain q where calls: "calls = [q]" by (rule paginate_returned)
  from run[unfolded calls] obtain pv nx removed flag where
    pv: "decode_if_given decode (previous p0) = Inr pv" and
    nx: "decode_if_given decode (next p0) = Inr nx" and
    inc: "include_fields (clamp_limit cfg (defaults cfg (p0\<lparr>previous := pv, next := nx\<rparr>))) = (p', removed, flag)"
    by (rule paginate_issued)
  have pv': "previous p' = pv" and nx': "next p' = nx"
    using include_fields_frame(4,5)[OF inc] by (simp_all add: prepared_frame)
  define X where "X = sort_by (doc_less rank (sort_spec p'))
             (filter (matches qsem rank (And_of (queries p'))) coll)"
  define g where "g = project (fields_p p')"
  have L: "1 \<le> limit_of p'"
    using limit_of_after[OF inc] cfg by (auto simp: Let_def)
  have r: "r = assemble encode p' removed flag (map g (limit_to (limit_of p' + 1) X))"
    using run paginate_mongo[OF pv nx inc, where encode=encode and qsem=qsem and rank=rank and coll=coll]
    by (simp add: X_def g_def)
  have rs: "restore_order p' (drop_extra p' (map g (limit_to (limit_of p' + 1) X))) = map g page"
    using drop_extra_page[where p=p' and g=g and X=X, OF refl L] by (simp add: restore_order_map page X_def)
  have cv: "cursor_value p' (g d) = cursor_value p' d" for d
    unfolding g_def using inc top[unfolded include_fields_derived(2)[OF inc]]
    by (rule cursor_value_project)
  have 1: "results r = (if flag then map (omit removed) (map g page) else map g page)"
    by (simp add: r assemble_def Let_def rs)
  have 2: "resp_previous r = (case page of [] \<Rightarrow> None | d # ds \<Rightarrow> Some (encode (cursor_value p' d)))"
    by (cases page) (simp_all add: r assemble_def Let_def rs cursor_of_def cv)
  have 3: "resp_next r = (case page of [] \<Rightarrow> None | d # ds \<Rightarrow> Some (encode (cursor_value p' (last page))))"
  proof (cases page)
    case Nil
    then show ?thesis by (simp add: r assemble_def Let_def rs)
  next
    case (Cons d ds)
    then have "last (map g page) = g (last page)" by (simp add: last_map)
    then show ?thesis using Cons by (simp add: r assemble_def Let_def rs cursor_of_def cv)
  qed
  show ?thesis
    using that[OF inc[folded pv' nx'] 1[unfolded g_def] 2 3] .
qed

lemma call_frame:
  assumes run: "paginate cfg decode encode store p0 = (Inr r, p', calls)"
  shows "decode_if_given decode (previous p0) = Inr (previous p')"
    and "decode_if_given decode (next p0) = Inr (next p')"
    and "sortAscending p' = sortAscending p0"
    and "field_of p' = (case paginatedField p0 of None \<Rightarrow> ''_id'' | Some f \<Rightarrow> f)"
    and "query p' = (if query p0 = JUndefined then JObj [] else query p0)"
proof -
  from run obtain q where "calls = [q]" by (rule paginate_returned)
  note fr = paginate_frame[OF run[unfolded this]]
  show "decode_if_given decode (previous p0) = Inr (previous p')"
    and "decode_if_given decode (next p0) = Inr (next p')"
    and "sortAscending p' = sortAscending p0"
    and "field_of p' = (case paginatedField p0 of None \<Rightarrow> ''_id'' | Some f \<Rightarrow> f)"
    and "query p' = (if query p0 = JUndefined then JObj [] else query p0)"
    by (rule fr)+
qed

lemma decode_if_given_falsy: "\<not> truthy v \<Longrightarrow> decode_if_given decode v = Inr v"
  by (simp add: decode_if_given_def)

lemma sort_spec_cong:
  assumes "field_of p = field_of p'" "truthy (sortAsc p) = truthy (sortAsc p')"
  shows "sort_spec p = sort_spec p'"
  using assms by (simp add: sort_spec_def sortDir_def shouldSecondarySortOnId_def)

lemma cursor_value_cong:
  assumes "field_of p = field_of p'"
  shows "cursor_value p d = cursor_value p' d"
  using assms by (simp add: cursor_value_def shouldSecondarySortOnId_def)

lemma doc_less_reversed:
  assumes "field_of p = field_of p'" "truthy (sortAsc p) = (\<not> truthy (sortAsc p'))"
  shows "doc_less rank (sort_spec p) a b = doc_less rank (sort_spec p') b a"
proof (cases "truthy (sortAsc p')")
  case True
  then show ?thesis
    using assms doc_less_flip[of rank _ a b]
    by (simp add: sort_spec_shape sortDir_def shouldSecondarySortOnId_def)
next
  case False
  then show ?thesis
    using assms doc_less_flip[of rank _ b a]
    by (simp add: sort_spec_shape sortDir_def shouldSecondarySortOnId_def)
qed

lemma matches_queries:
  "matches qsem rank (And_of (queries p)) d =
     (qsem (query p) d \<and>
      (if truthy (next p) then doc_less rank (sort_spec p) (cursor_doc p (next p)) d
       else if truthy (previous p) then doc_less rank (sort_spec p) (cursor_doc p (previous p)) d
       else True))"
  by (simp add: queries_def matches_cursor_filter)

lemma sample_codec:
  "list_all (\<lambda>d. sample_encode (cursor_value (by_date\<lparr>query := JObj [], limit := Some 2\<rparr>) d) \<noteq> []
      \<and> sample_decode (JStr (sample_encode (cursor_value (by_date\<lparr>query := JObj [], limit := Some 2\<rparr>) d)))
          = Inr (cursor_value (by_date\<lparr>query := JObj [], limit := Some 2\<rparr>) d)
      \<and> truthy (cursor_value (by_date\<lparr>query := JObj [], limit := Some 2\<rparr>) d)) posts"
  by code_simp

section \<open>Forward and backward\<close>

text \<open>
  Where the cursors are truthy the backward call does reproduce the page. Let the
  documents of the collection have pairwise different \<open>_id\<close>s in the store's order, let
  \<open>paginatedField\<close> be a top-level name, let the codec give non-empty tokens and
  decode what it encoded for the cursors of the collection's documents, and let every
  such cursor value be truthy (it always is when \<open>paginatedField\<close> is not \<open>_id\<close>,
  where the cursor is a pair). If a call without \<open>previous\<close> returns page N with a
  \<open>next\<close> cursor, and the call with that \<open>next\<close> cursor returns a page with a
  \<open>previous\<close> cursor, then the call with that \<open>previous\<close> cursor returns a page whose
  results are exactly those of page N, in the same order: the scan runs in the reverse
  direction and line 152 reverses its result.
\<close>

lemma backward_page_of_truthy_cursors:
  fixes rank :: "jsval \<Rightarrow> 'k::linorder" and decode :: "jsval \<Rightarrow> 'e + jsval"
  assumes cfg: "1 \<le> MAX_LIMIT cfg"
    and noprev: "\<not> truthy (previous b)" and nonext: "\<not> truthy (next b)"
    and ids: "distinct (map (\<lambda>d. rank (get_prop d ''_id'')) coll)"
    and pageN: "paginate cfg decode encode (mongo_find qsem rank coll) (b\<lparr>next := tN\<rparr>)
                  = (Inr rN, pN, cN)"
    and codec: "\<And>d. d \<in> set coll \<Longrightarrow>
                  encode (cursor_value pN d) \<noteq> [] \<and>
                  decode (JStr (encode (cursor_value pN d))) = Inr (cursor_value pN d)"
    and truthy_cursors: "\<And>d. d \<in> set coll \<Longrightarrow> truthy (cursor_value pN d)"
    and top: "top_level (field_of pN)"
    and tokA: "resp_next rN = Some tokA"
    and pageN1: "paginate cfg decode encode (mongo_find qsem rank coll) (b\<lparr>next := JStr tokA\<rparr>)
                  = (Inr rN1, pN1, cN1)"
    and tokB: "resp_previous rN1 = Some tokB"
  shows "\<exists>rB pB cB.
           paginate cfg decode encode (mongo_find qsem rank coll) (b\<lparr>previous := JStr tokB\<rparr>)
             = (Inr rB, pB, cB)
         \<and> results rB = results rN"
proof -
  define lt where "lt = doc_less rank (sort_spec pN)"
  define Q where "Q = qsem (query pN)"
  define C where "C = filter Q coll"
  define S where "S = sort_by lt C"
  define n where "n = nat (limit_of pN)"
  have irrefl: "\<not> lt a a" for a by (simp add: lt_def doc_less_irrefl)
  have trans: "lt a c" if "lt a b" "lt b c" for a b c
    using that unfolding lt_def by (rule doc_less_trans)
  have dist: "distinct coll" using ids by (simp add: distinct_map)
  have total: "\<forall>x \<in> set coll. \<forall>y \<in> set coll. x \<noteq> y \<longrightarrow> lt x y \<or> lt y x"
  proof (intro ballI impI)
    fix x y assume "x \<in> set coll" "y \<in> set coll" "x \<noteq> y"
    then have "rank (get_prop x ''_id'') \<noteq> rank (get_prop y ''_id'')"
      using ids by (auto simp: distinct_map inj_on_def)
    then show "lt x y \<or> lt y x"
      unfolding lt_def by (rule doc_less_total) (rule sort_spec_has_id)
  qed
  have distC: "distinct C" using dist by (simp add: C_def)
  have totalC: "\<forall>x \<in> set C. \<forall>y \<in> set C. x \<noteq> y \<longrightarrow> lt x y \<or> lt y x"
    using total by (simp add: C_def)
  have sortedS: "sorted_wrt lt S"
    unfolding S_def using trans distC totalC by (rule sorted_sort_by)
  have setS: "set S \<subseteq> set coll" by (auto simp: S_def C_def set_sort_by)
  have sortC: "sort_by lt (filter R C) = filter R S" for R
    unfolding S_def using irrefl trans distC totalC by (rule sort_by_filter)

  \<comment> \<open>page N\<close>
  note frN = call_frame[OF pageN]
  have prevN: "\<not> truthy (previous pN)"
    using frN(1) noprev by (simp add: decode_if_given_falsy)
  define RN where "RN = (\<lambda>d. if truthy (next pN) then lt (cursor_doc pN (next pN)) d else True)"
  define XN where "XN = filter RN S"
  have "matches qsem rank (And_of (queries pN)) = (\<lambda>d. Q d \<and> RN d)"
    using prevN by (intro ext) (simp add: matches_queries RN_def Q_def lt_def del: matches.simps)
  then have filterN: "filter (matches qsem rank (And_of (queries pN))) coll = filter RN C"
    by (simp add: C_def)
  obtain A where suffix: "S = A @ XN"
  proof (cases "truthy (next pN)")
    case True
    then have "XN = filter (lt (cursor_doc pN (next pN))) S" by (simp add: XN_def RN_def)
    then show ?thesis
      using filter_above_suffix[of lt S "cursor_doc pN (next pN)"] trans sortedS that by metis
  next
    case False
    then have "S = [] @ XN" by (simp add: XN_def RN_def)
    then show ?thesis by (rule that)
  qed
  define PN where "PN = take n XN"
  have pageN_eq: "PN = restore_order pN (take (nat (limit_of pN))
          (sort_by (doc_less rank (sort_spec pN))
             (filter (matches qsem rank (And_of (queries pN))) coll)))"
    using prevN by (simp add: PN_def restore_order_def filterN n_def XN_def sortC lt_def[symmetric])
  from mongo_page[OF pageN cfg pageN_eq top] obtain removedN flagN where
    incN: "include_fields (clamp_limit cfg (defaults cfg
             (b\<lparr>next := tN, previous := previous pN, next := next pN\<rparr>))) = (pN, removedN, flagN)"
    and resN: "results rN = (if flagN then map (omit removedN) (map (project (fields_p pN)) PN)
                  else map (project (fields_p pN)) PN)"
    and nextN: "resp_next rN =
        (case PN of [] \<Rightarrow> None | d # ds \<Rightarrow> Some (encode (cursor_value pN (last PN))))"
    by blast
  have PNne: "PN \<noteq> []" using nextN tokA by (cases PN) auto
  define eN where "eN = last PN"
  have tokA': "tokA = encode (cursor_value pN eN)"
    using nextN tokA PNne by (cases PN) (auto simp: eN_def)
  have eN: "eN \<in> set coll"
  proof -
    have "eN \<in> set PN" using PNne by (simp add: eN_def)
    then have "eN \<in> set XN" unfolding PN_def by (rule in_set_takeD)
    then show ?thesis using setS by (auto simp: XN_def)
  qed
  note truthy_cursor = truthy_cursors

  \<comment> \<open>page N+1\<close>
  note frN1 = call_frame[OF pageN1]
  have fieldN1: "field_of pN1 = field_of pN" using frN1(4) frN(4) by simp
  have prevN1: "\<not> truthy (previous pN1)"
    using frN1(1) noprev by (simp add: decode_if_given_falsy)
  have nextN1: "next pN1 = cursor_value pN eN"
    using frN1(2) codec[OF eN] by (simp add: decode_if_given_def tokA')
  have ascN1: "truthy (sortAsc pN1) = truthy (sortAsc pN)"
    using prevN prevN1 frN1(3) frN(3) by (simp add: truthy_sortAsc)
  have specN1: "sort_spec pN1 = sort_spec pN"
    using fieldN1 ascN1 by (rule sort_spec_cong)
  have queryN1: "query pN1 = query pN" using frN1(5) frN(5) by simp
  have cursorN1: "doc_less rank (sort_spec pN1) (cursor_doc pN1 (next pN1)) d = lt eN d" for d
    using cursor_doc_of_value[of rank pN1 eN d] cursor_value_cong[OF fieldN1, of eN]
    by (simp add: nextN1 specN1 lt_def)
  have "truthy (next pN1)" using truthy_cursor[OF eN] by (simp add: nextN1)
  then have "matches qsem rank (And_of (queries pN1)) = (\<lambda>d. Q d \<and> lt eN d)"
    by (intro ext) (simp add: matches_queries Q_def queryN1 cursorN1 del: matches.simps)
  then have filterN1: "filter (matches qsem rank (And_of (queries pN1))) coll = filter (lt eN) C"
    by (simp add: C_def)
  define N1 where "N1 = take n (filter (lt eN) S)"
  have limN1: "limit_of pN1 = limit_of pN"
  proof -
    from pageN1 obtain q where "cN1 = [q]" by (rule paginate_returned)
    from pageN1[unfolded this] obtain pv nx removed flag where
      "include_fields (clamp_limit cfg (defaults cfg (b\<lparr>next := JStr tokA, previous := pv, next := nx\<rparr>)))
         = (pN1, removed, flag)"
      by (rule paginate_issued)
    from limit_of_after[OF this] limit_of_after[OF incN] show ?thesis by simp
  qed
  have pageN1_eq: "N1 = restore_order pN1 (take (nat (limit_of pN1))
          (sort_by (doc_less rank (sort_spec pN1))
             (filter (matches qsem rank (And_of (queries pN1))) coll)))"
    using prevN1 by (simp add: N1_def restore_order_def filterN1 n_def limN1 specN1 sortC lt_def[symmetric])
  from mongo_page[OF pageN1 cfg pageN1_eq top[folded fieldN1]] have
    prevcN1: "resp_previous rN1 =
        (case N1 of [] \<Rightarrow> None | d # ds \<Rightarrow> Some (encode (cursor_value pN1 d)))"
    by blast
  have N1ne: "N1 \<noteq> []" using prevcN1 tokB by (cases N1) auto
  define e' where "e' = hd N1"
  have tokB': "tokB = encode (cursor_value pN e')"
    using prevcN1 tokB N1ne cursor_value_cong[OF fieldN1]
    by (cases N1) (auto simp: e'_def)
  have e': "e' \<in> set coll"
  proof -
    have "e' \<in> set N1" using N1ne by (simp add: e'_def)
    then have "e' \<in> set (filter (lt eN) S)" unfolding N1_def by (rule in_set_takeD)
    then show ?thesis using setS by auto
  qed
  have core: "rev (take n (rev (filter (\<lambda>x. lt x e') S))) = PN"
    unfolding e'_def
    using irrefl trans sortedS suffix PN_def PNne N1_def[unfolded eN_def] N1ne
    by (rule backward_page)

  \<comment> \<open>the call with the previous cursor\<close>
  let ?p0 = "b\<lparr>previous := JStr tokB\<rparr>"
  have decB: "decode_if_given decode (previous ?p0) = Inr (cursor_value pN e')"
    using codec[OF e'] by (simp add: decode_if_given_def tokB')
  have decBn: "decode_if_given decode (next ?p0) = Inr (next b)"
    using nonext by (simp add: decode_if_given_falsy)
  obtain pB removedB flagB where
    incB: "include_fields (clamp_limit cfg (defaults cfg
             (?p0\<lparr>previous := cursor_value pN e', next := next b\<rparr>))) = (pB, removedB, flagB)"
    using prod_cases3 by blast
  define rB where "rB = assemble encode pB removedB flagB
                  (map (project (fields_p pB))
                     (limit_to (limit_of pB + 1)
                        (sort_by (doc_less rank (sort_spec pB))
                           (filter (matches qsem rank (And_of (queries pB))) coll))))"
  have runB: "paginate cfg decode encode (mongo_find qsem rank coll) ?p0 = (Inr rB, pB, [find_call pB])"
    unfolding rB_def using decB decBn incB by (rule paginate_mongo)
  note frB = call_frame[OF runB]
  have fieldB: "field_of pB = field_of pN" using frB(4) frN(4) by simp
  have prevB: "previous pB = cursor_value pN e'" using frB(1) decB by simp
  have nextB: "\<not> truthy (next pB)" using frB(2) decBn nonext by simp
  have tprevB: "truthy (previous pB)" using prevB truthy_cursor[OF e'] by simp
  have ascB: "truthy (sortAsc pB) = (\<not> truthy (sortAsc pN))"
    using prevN tprevB frB(3) frN(3) by (simp add: truthy_sortAsc)
  have gt: "doc_less rank (sort_spec pB) = (\<lambda>x y. lt y x)"
    using doc_less_reversed[OF fieldB ascB] by (intro ext) (simp add: lt_def)
  have queryB: "query pB = query pN" using frB(5) frN(5) by simp
  have cursorB: "doc_less rank (sort_spec pB) (cursor_doc pB (previous pB)) d = lt d e'" for d
    using cursor_doc_of_value[of rank pB e' d] cursor_value_cong[OF fieldB, of e']
    by (simp add: prevB gt)
  have "matches qsem rank (And_of (queries pB)) = (\<lambda>d. Q d \<and> lt d e')"
    using nextB tprevB by (intro ext) (simp add: matches_queries Q_def queryB cursorB del: matches.simps)
  then have filterB: "filter (matches qsem rank (And_of (queries pB))) coll = filter (\<lambda>d. lt d e') C"
    by (simp add: C_def)
  have limB: "limit_of pB = limit_of pN"
    using limit_of_after[OF incB] limit_of_after[OF incN] by simp
  have distB: "distinct (filter (\<lambda>d. lt d e') C)" using distC by simp
  have totalB: "\<forall>x \<in> set (filter (\<lambda>d. lt d e') C). \<forall>y \<in> set (filter (\<lambda>d. lt d e') C).
      x \<noteq> y \<longrightarrow> lt x y \<or> lt y x"
    using totalC by simp
  have XB: "sort_by (\<lambda>x y. lt y x) (filter (\<lambda>d. lt d e') C) = rev (filter (\<lambda>d. lt d e') S)"
    using sort_by_converse[of lt "filter (\<lambda>d. lt d e') C", OF irrefl trans distB totalB]
    by (simp add: sortC)
  have pageB_eq: "PN = restore_order pB (take (nat (limit_of pB))
          (sort_by (doc_less rank (sort_spec pB))
             (filter (matches qsem rank (And_of (queries pB))) coll)))"
    using tprevB by (simp add: restore_order_def filterB limB gt XB core n_def[symmetric])
  from mongo_page[OF runB cfg pageB_eq top[folded fieldB]] obtain removed flag where
    incB': "include_fields (clamp_limit cfg (defaults cfg
             (?p0\<lparr>previous := previous pB, next := next pB\<rparr>))) = (pB, removed, flag)"
    and resB: "results rB = (if flag then map (omit removed) (map (project (fields_p pB)) PN)
                  else map (project (fields_p pB)) PN)"
    by blast
  have same: "removed = removedN" "flag = flagN" "fields_p pB = fields_p pN"
    using include_fields_same[OF incB' incN] frN(4)
    by (simp_all add: prepared_frame field_of_def)
  have "results rB = results rN"
    by (simp add: resB resN same)
  with runB show ?thesis by blast
qed

lemma backward_page_of_sample:
  "distinct (map (\<lambda>d. sample_rank (get_prop d ''_id'')) posts)
   \<and> fst (paginate sample_config sample_decode sample_encode sample_store (by_date\<lparr>next := JUndefined\<rparr>))
       = Inr \<lparr>results = [post 0 1, post 3 1], resp_previous = Some ''f-'', hasPrevious = False,
           resp_next = Some ''f-iii'', hasNext = True\<rparr>
   \<and> fst (paginate sample_config sample_decode sample_encode sample_store (by_date\<lparr>next := JStr ''f-iii''\<rparr>))
       = Inr \<lparr>results = [post 1 2, post 2 2], resp_previous = Some ''ff-i'', hasPrevious = True,
           resp_next = Some ''ff-ii'', hasNext = True\<rparr>
   \<and> (\<exists>rB pB cB.
         paginate sample_config sample_decode sample_encode sample_store (by_date\<lparr>previous := JStr ''ff-i''\<rparr>)
           = (Inr rB, pB, cB)
         \<and> results rB = [post 0 1, post 3 1])"
proof -
  have cfg: "1 \<le> MAX_LIMIT sample_config" by (simp add: sample_config_def)
  have noprev: "\<not> truthy (previous by_date)" and nonext: "\<not> truthy (next by_date)"
    by (simp_all add: by_date_def no_params_def)
  have ids: "distinct (map (\<lambda>d. sample_rank (get_prop d ''_id'')) posts)"
    by code_simp
  have same: "by_date\<lparr>next := JUndefined\<rparr> = by_date"
    by (simp add: by_date_def no_params_def)
  have pageN: "paginate sample_config sample_decode sample_encode
      (mongo_find match_all sample_rank posts) (by_date\<lparr>next := JUndefined\<rparr>) =
     (Inr \<lparr>results = [post 0 1, post 3 1], resp_previous = Some ''f-'', hasPrevious = False,
           resp_next = Some ''f-iii'', hasNext = True\<rparr>,
      by_date\<lparr>query := JObj [], limit := Some 2\<rparr>,
      [\<lparr>q_filter = And_of [Caller (JObj [])], q_fields = None,
        q_sort = [(''date'', 1), (''_id'', 1)], q_limit = 3\<rparr>])"
    using run_by_date by (simp add: same sample_store_def)
  have codec: "sample_encode (cursor_value (by_date\<lparr>query := JObj [], limit := Some 2\<rparr>) d) \<noteq> []
      \<and> sample_decode (JStr (sample_encode (cursor_value (by_date\<lparr>query := JObj [], limit := Some 2\<rparr>) d)))
          = Inr (cursor_value (by_date\<lparr>query := JObj [], limit := Some 2\<rparr>) d)"
    and truthy_cursors: "truthy (cursor_value (by_date\<lparr>query := JObj [], limit := Some 2\<rparr>) d)"
    if "d \<in> set posts" for d
    using sample_codec that by (auto simp: list_all_iff)
  have tokA: "resp_next \<lparr>results = [post 0 1, post 3 1], resp_previous = Some ''f-'', hasPrevious = False,
           resp_next = Some ''f-iii'', hasNext = True\<rparr> = Some ''f-iii''" by simp
  have pageN1: "paginate sample_config sample_decode sample_encode
      (mongo_find match_all sample_rank posts) (by_date\<lparr>next := JStr ''f-iii''\<rparr>) =
     (Inr \<lparr>results = [post 1 2, post 2 2], resp_previous = Some ''ff-i'', hasPrevious = True,
           resp_next = Some ''ff-ii'', hasNext = True\<rparr>,
      by_date\<lparr>query := JObj [], limit := Some 2, next := JArr [JNum 1, JNum 3]\<rparr>,
      [q_by_date_after])"
    using run_by_date_after by (simp add: by_date_after_def sample_store_def)
  have tokB: "resp_previous \<lparr>results = [post 1 2, post 2 2], resp_previous = Some ''ff-i'', hasPrevious = True,
           resp_next = Some ''ff-ii'', hasNext = True\<rparr> = Some ''ff-i''" by simp
  have top: "top_level (field_of (by_date\<lparr>query := JObj [], limit := Some 2\<rparr>))"
    by (simp add: field_of_def by_date_def top_level_samples)
  from backward_page_of_truthy_cursors[OF cfg noprev nonext ids pageN codec truthy_cursors top tokA pageN1 tokB]
  have "\<exists>rB pB cB.
         paginate sample_config sample_decode sample_encode (mongo_find match_all sample_rank posts)
           (by_date\<lparr>previous := JStr ''ff-i''\<rparr>) = (Inr rB, pB, cB)
         \<and> results rB = [post 0 1, post 3 1]"
    by simp
  with ids pageN pageN1 show ?thesis
    by (simp add: sample_store_def)
qed

text \<open>
  C5. The property: over an unchanged collection ordered by \<open>(paginatedField, _id)\<close>,
  the call with the \<open>previous\<close> cursor returned with page N+1 reproduces page N. The
  code departs from it when that cursor decodes to a falsy value. Take documents with
  the ids 0 to 4, \<open>paginatedField\<close> \<open>_id\<close>, no \<open>sortAscending\<close> (so the ids
  descend) and limit 2: the page after the cursor of 3 is the documents 2 and 1, the
  page after that is the document 0, and its \<open>previous\<close> cursor is \<open>n\<close>, which
  encodes 0. Line 30 decodes it to 0; lines 74, 100 and 152 test the decoded value,
  take \<open>previous\<close> for absent, and the call returns the first page, the documents 4
  and 3, where the property demands the documents 2 and 1.
\<close>

theorem falsy_previous_returns_first_page:
  "distinct (map (\<lambda>d. sample_rank (get_prop d ''_id'')) posts)
   \<and> list_all (\<lambda>d. sample_decode (JStr (sample_encode (get_prop d ''_id''))) = Inr (get_prop d ''_id'')) posts
   \<and> fst (paginate sample_config sample_decode sample_encode sample_store (by_id\<lparr>next := JStr ''niii''\<rparr>))
       = Inr \<lparr>results = [post 2 2, post 1 2], resp_previous = Some ''nii'', hasPrevious = True,
               resp_next = Some ''ni'', hasNext = True\<rparr>
   \<and> fst (paginate sample_config sample_decode sample_encode sample_store (by_id\<lparr>next := JStr ''ni''\<rparr>))
       = Inr \<lparr>results = [post 0 1], resp_previous = Some ''n'', hasPrevious = True,
               resp_next = Some ''n'', hasNext = False\<rparr>
   \<and> fst (paginate sample_config sample_decode sample_encode sample_store (by_id\<lparr>previous := JStr ''n''\<rparr>))
       = Inr \<lparr>results = [post 4 3, post 3 1], resp_previous = Some ''niiii'', hasPrevious = False,
               resp_next = Some ''niii'', hasNext = True\<rparr>
   \<and> [post 4 3, post 3 1] \<noteq> [post 2 2, post 1 2]"
  by code_simp

end
